theory Spec2Isabelle
  imports Complex_Main
begin

section \<open>The self-healing monitor (src/utils/self-healing.js)\<close>

text \<open>
  A shallow embedding of the class \<open>SelfHealingSystem\<close>. The JavaScript values the
  class handles are modelled as follows.
  \<^item> A \<open>Map\<close> is an association list in insertion order with unique keys
    (\<open>map_set\<close> replaces the value of an existing key where it stands and appends a
    new key at the end, as \<open>Map.prototype.set\<close> does).
  \<^item> Times (\<open>Date.now()\<close>, and the ISO strings made from it) are integers, in
    milliseconds; the clock is the field \<open>now\<close> of the world.
  \<^item> A thrown value is the left summand of a sum type. Any value can be thrown:
    \<open>null\<close>, \<open>undefined\<close>, or a value whose property \<open>message\<close> can be read (an
    \<open>Error\<close>, or any other value, whose \<open>message\<close> may be \<open>undefined\<close>). Where
    the source logs \<open>error.stack\<close> beside \<open>error.message\<close>, the stack is left out of
    the logged metadata. An asynchronous method that throws returns a rejected promise:
    its model returns the thrown value beside the state as the method left it.
  \<^item> The logger is an external collaborator: what it is given is appended to the
    field \<open>logs\<close> of the world. The emoji that open the messages of the source are
    left out of the message strings.
  \<^item> One timer callback runs to its end before the next is looked at: the
    interleaving of callbacks at an \<open>await\<close> is not modelled.
\<close>

subsection \<open>JavaScript values\<close>

text \<open>
  Numbers that come out of a division: a finite number (held exactly, without the
  rounding of a double), \<open>Infinity\<close>, or \<open>NaN\<close>.
\<close>

datatype jsnum = Fin rat | PosInf | NaN

datatype jsval =
    JNum jsnum
  | JBool bool
  | JStr string
  | JObj "(string \<times> jsval) list"
  | JArr "jsval list"
  | JUndefined

text \<open>
  A thrown value: \<open>null\<close>, \<open>undefined\<close>, or any other value, given by what its
  property \<open>message\<close> holds (\<open>JUndefined\<close> when it has none). Reading the
  property of such a value does not throw: accessor properties are not modelled.
\<close>

datatype thrown = ThrownNull | ThrownUndefined | Thrown jsval

text \<open>
  The expression \<open>error.message\<close> of the \<open>catch\<close> blocks. On \<open>null\<close> and
  \<open>undefined\<close> it throws a \<open>TypeError\<close>.
\<close>

definition cannot_read :: "string \<Rightarrow> thrown" where
  "cannot_read v =
     Thrown (JStr (''Cannot read properties of '' @ v @ '' (reading '' @ [CHR 0x27]
                     @ ''message'' @ [CHR 0x27] @ '')''))"

definition error_message :: "thrown \<Rightarrow> thrown + jsval" where
  "error_message e =
     (case e of
        ThrownNull \<Rightarrow> Inl (cannot_read ''null'')
      | ThrownUndefined \<Rightarrow> Inl (cannot_read ''undefined'')
      | Thrown m \<Rightarrow> Inr m)"

text \<open>\<open>a / b\<close> on two non-negative integers.\<close>

definition js_div :: "nat \<Rightarrow> nat \<Rightarrow> jsnum" where
  "js_div a b =
     (if b = 0 then (if a = 0 then NaN else PosInf)
      else Fin (rat_of_nat a / rat_of_nat b))"

text \<open>\<open>x * c\<close> for a positive finite constant \<open>c\<close>.\<close>

definition js_times :: "jsnum \<Rightarrow> rat \<Rightarrow> jsnum" where
  "js_times x c = (case x of Fin q \<Rightarrow> Fin (q * c) | PosInf \<Rightarrow> PosInf | NaN \<Rightarrow> NaN)"

text \<open>\<open>x < c\<close> for a finite constant \<open>c\<close>: false on \<open>NaN\<close> and on \<open>Infinity\<close>.\<close>

definition js_lt :: "jsnum \<Rightarrow> rat \<Rightarrow> bool" where
  "js_lt x c = (case x of Fin q \<Rightarrow> q < c | PosInf \<Rightarrow> False | NaN \<Rightarrow> False)"

subsection \<open>Maps and arrays\<close>

type_synonym ('k, 'v) jsmap = "('k \<times> 'v) list"

fun map_set :: "'k \<Rightarrow> 'v \<Rightarrow> ('k, 'v) jsmap \<Rightarrow> ('k, 'v) jsmap" where
  "map_set k v [] = [(k, v)]"
| "map_set k v ((k', v') # m) =
     (if k' = k then (k, v) # m else (k', v') # map_set k v m)"

definition map_get :: "('k, 'v) jsmap \<Rightarrow> 'k \<Rightarrow> 'v option" where
  "map_get m k = map_of m k"

text \<open>\<open>xs.slice(-n)\<close>: the last \<open>n\<close> elements, all of them when there are fewer.\<close>

definition slice_last :: "nat \<Rightarrow> 'a list \<Rightarrow> 'a list" where
  "slice_last n xs = drop (length xs - n) xs"

subsection \<open>The state\<close>

record metric =
  endpoint :: string
  responseTime :: int
  statusCode :: int
  recorded_at :: int

datatype level = LDebug | LInfo | LWarn | LError

datatype log_entry = Log level string "(string \<times> jsval) list"

text \<open>
  The world is what the check functions and the repair actions read and write: the
  performance-metric sequence, the logger's output, the clock, and the figures of the
  process (\<open>process.memoryUsage()\<close>, \<open>process.uptime()\<close>, whether \<open>global.gc\<close> is
  defined, \<open>v8.getHeapStatistics()\<close>). What a collection does to the figures of the
  process is not modelled: no action reads them after it has called \<open>global.gc()\<close>.
\<close>

record world =
  performanceMetrics :: "metric list"
  logs :: "log_entry list"
  now :: int
  heapUsed :: nat
  heapTotal :: nat
  uptime :: rat
  gc_available :: bool
  heapStatistics :: "(string \<times> jsval) list"

record error_pattern =
  count :: nat
  first_seen :: int
  last_seen :: int
  messages :: "(string \<times> int) list"

text \<open>
  The fields of the class that are not registries of closures. \<open>invoked\<close> is not a
  field of the class: it is the trace of the calls \<open>repair.repair()\<close>, by registry
  key, in the order they were made.
\<close>

record sys =
  env :: world
  errorPatterns :: "(string, error_pattern) jsmap"
  healingAttempts :: "(string, int) jsmap"
  isMonitoring :: bool
  invoked :: "string list"

record reading =
  healthy :: bool
  component :: "string option"
  err :: "jsval option"
  timestamp :: int
  details :: "(string \<times> jsval) list"

text \<open>A health snapshot: the own properties of the object, in insertion order.\<close>

type_synonym health_status = "(string \<times> reading) list"

record check_def =
  cname :: string
  check :: "world \<Rightarrow> thrown + reading"
  interval :: int
  critical :: bool

record repair_def =
  rname :: string
  trigger :: "health_status \<Rightarrow> thrown + bool"
  repair :: "world \<Rightarrow> (thrown + jsval) \<times> world"
  cooldown :: int

definition logw :: "level \<Rightarrow> string \<Rightarrow> (string \<times> jsval) list \<Rightarrow> world \<Rightarrow> world" where
  "logw l m meta w = w\<lparr>logs := logs w @ [Log l m meta]\<rparr>"

text \<open>The constructor: empty registries, empty collections, not monitoring.\<close>

definition constructor :: "world \<Rightarrow> sys" where
  "constructor w =
     \<lparr>env = w\<lparr>performanceMetrics := []\<rparr>, errorPatterns = [], healingAttempts = [],
      isMonitoring = False, invoked = []\<rparr>"

subsection \<open>triggerHealing\<close>

text \<open>
  The cooldown test \<open>lastAttempt && Date.now() - lastAttempt < repair.cooldown\<close>: a
  missing entry is \<open>undefined\<close> and the timestamp \<open>0\<close> is falsy as well.
\<close>

definition in_cooldown :: "int option \<Rightarrow> int \<Rightarrow> int \<Rightarrow> bool" where
  "in_cooldown lastAttempt t cd =
     (case lastAttempt of
        None \<Rightarrow> False
      | Some l \<Rightarrow> l \<noteq> 0 \<and> t - l < cd)"

definition repair_failed :: "repair_def \<Rightarrow> jsval \<Rightarrow> world \<Rightarrow> world" where
  "repair_failed r m w = logw LError (''Repair failed: '' @ rname r) [(''error'', m)] w"

text \<open>
  The \<open>catch\<close> block of \<open>triggerHealing\<close>. The metadata of the log call are
  evaluated before the call: when \<open>error.message\<close> throws, nothing is logged and the
  \<open>TypeError\<close> leaves the loop and the method.
\<close>

definition catch_repair :: "repair_def \<Rightarrow> thrown \<Rightarrow> sys \<Rightarrow> thrown option \<times> sys" where
  "catch_repair r e s =
     (case error_message e of
        Inl te \<Rightarrow> (Some te, s)
      | Inr m \<Rightarrow> (None, s\<lparr>env := repair_failed r m (env s)\<rparr>))"

text \<open>
  The body of the loop of \<open>triggerHealing\<close>, for one entry of \<open>autoRepairs\<close>. The
  \<open>try\<close> block holds the call of the trigger, the cooldown test, the call of the
  repair action and, after it, the write to \<open>healingAttempts\<close>. The result is
  \<open>None\<close> when the loop goes on to the next entry and \<open>Some e\<close> when \<open>e\<close> is thrown
  out of the \<open>catch\<close> block.
\<close>

definition heal_one ::
  "health_status \<Rightarrow> string \<times> repair_def \<Rightarrow> sys \<Rightarrow> thrown option \<times> sys" where
  "heal_one healthStatus entry s =
     (let repairName = fst entry; r = snd entry in
      case trigger r healthStatus of
        Inl e \<Rightarrow> catch_repair r e s
      | Inr fire \<Rightarrow>
          if \<not> fire then (None, s)
          else if in_cooldown (map_get (healingAttempts s) repairName) (now (env s)) (cooldown r)
          then (None, s\<lparr>env := logw LDebug (''Repair '' @ repairName @ '' in cooldown period'')
                                    [] (env s)\<rparr>)
          else
            (let w1 = logw LInfo (''Triggering repair: '' @ rname r) [] (env s);
                 out = repair r w1;
                 s1 = s\<lparr>invoked := invoked s @ [repairName], env := snd out\<rparr>
             in case fst out of
                  Inl e \<Rightarrow> catch_repair r e s1
                | Inr result \<Rightarrow>
                    (None,
                     s1\<lparr>healingAttempts :=
                          map_set repairName (now (snd out)) (healingAttempts s),
                        env := logw LInfo (''Repair completed: '' @ rname r)
                                 [(''result'', result)] (snd out)\<rparr>)))"

text \<open>
  \<open>triggerHealing\<close>: the loop over \<open>autoRepairs\<close>. A value thrown out of a
  \<open>catch\<close> block ends the loop: the repairs after it are not looked at.
\<close>

fun triggerHealing ::
  "(string, repair_def) jsmap \<Rightarrow> health_status \<Rightarrow> sys \<Rightarrow> thrown option \<times> sys" where
  "triggerHealing [] healthStatus s = (None, s)"
| "triggerHealing (entry # rest) healthStatus s =
     (case heal_one healthStatus entry s of
        (Some e, s') \<Rightarrow> (Some e, s')
      | (None, s') \<Rightarrow> triggerHealing rest healthStatus s')"

subsection \<open>The health checks\<close>

definition num :: "int \<Rightarrow> jsval" where
  "num i = JNum (Fin (rat_of_int i))"

definition memoryUsage :: "world \<Rightarrow> jsval" where
  "memoryUsage w = JObj [(''heapTotal'', num (int (heapTotal w))), (''heapUsed'', num (int (heapUsed w)))]"

definition server_check :: "world \<Rightarrow> thrown + reading" where
  "server_check w =
     Inr \<lparr>healthy = True, component = None, err = None, timestamp = now w,
          details = [(''uptime'', JNum (Fin (uptime w))), (''memory'', memoryUsage w)]\<rparr>"

text \<open>
  \<open>memoryUsagePercent = (memUsage.heapUsed / memUsage.heapTotal) * 100\<close> and
  \<open>healthy: memoryUsagePercent < 85\<close>.
\<close>

definition memory_check :: "world \<Rightarrow> thrown + reading" where
  "memory_check w =
     (let memoryUsagePercent = js_times (js_div (heapUsed w) (heapTotal w)) 100 in
      Inr \<lparr>healthy = js_lt memoryUsagePercent 85, component = None, err = None,
           timestamp = now w,
           details = [(''usage_percent'', JNum memoryUsagePercent),
                      (''heap_used'', num (int (heapUsed w))),
                      (''heap_total'', num (int (heapTotal w))),
                      (''warning_threshold'', num 85),
                      (''critical_threshold'', num 95)]\<rparr>)"

definition response_time_check :: "world \<Rightarrow> thrown + reading" where
  "response_time_check w =
     (let recentMetrics = slice_last 10 (performanceMetrics w) in
      if length recentMetrics = 0
      then Inr \<lparr>healthy = True, component = None, err = None, timestamp = now w,
                details = [(''average_response_time'', num 0)]\<rparr>
      else
        (let avgResponseTime =
               rat_of_int (foldl (\<lambda>sum m. sum + responseTime m) 0 recentMetrics)
                 / rat_of_nat (length recentMetrics)
         in Inr \<lparr>healthy = (avgResponseTime < 2000), component = None, err = None,
                 timestamp = now w,
                 details = [(''average_response_time'', JNum (Fin avgResponseTime)),
                            (''threshold'', num 2000),
                            (''recent_requests'', num (int (length recentMetrics)))]\<rparr>))"

definition error_rate_check :: "world \<Rightarrow> thrown + reading" where
  "error_rate_check w =
     (let recentMetrics = slice_last 50 (performanceMetrics w) in
      if length recentMetrics = 0
      then Inr \<lparr>healthy = True, component = None, err = None, timestamp = now w,
                details = [(''error_rate'', num 0)]\<rparr>
      else
        (let errorCount = length (filter (\<lambda>m. statusCode m \<ge> 400) recentMetrics);
             errorRate = (rat_of_nat errorCount / rat_of_nat (length recentMetrics)) * 100
         in Inr \<lparr>healthy = (errorRate < 10), component = None, err = None,
                 timestamp = now w,
                 details = [(''error_rate'', JNum (Fin errorRate)),
                            (''error_count'', num (int errorCount)),
                            (''total_requests'', num (int (length recentMetrics))),
                            (''threshold'', num 10)]\<rparr>))"

definition v8_performance_check :: "world \<Rightarrow> thrown + reading" where
  "v8_performance_check w =
     (let heapUsedPercent = js_times (js_div (heapUsed w) (heapTotal w)) 100 in
      Inr \<lparr>healthy = js_lt heapUsedPercent 90, component = None, err = None,
           timestamp = now w,
           details = [(''heap_used_percent'', JNum heapUsedPercent),
                      (''heap_statistics'', JObj (heapStatistics w)),
                      (''gc_available'', JBool (gc_available w)),
                      (''optimization_level'', JStr ''v8_enhanced'')]\<rparr>)"

definition server_def :: check_def where
  "server_def = \<lparr>cname = ''Server Health'', check = server_check, interval = 30000, critical = True\<rparr>"

definition memory_def :: check_def where
  "memory_def = \<lparr>cname = ''Memory Usage'', check = memory_check, interval = 15000, critical = True\<rparr>"

definition response_time_def :: check_def where
  "response_time_def =
     \<lparr>cname = ''Response Time'', check = response_time_check, interval = 45000, critical = False\<rparr>"

definition error_rate_def :: check_def where
  "error_rate_def =
     \<lparr>cname = ''Error Rate'', check = error_rate_check, interval = 60000, critical = True\<rparr>"

definition v8_performance_def :: check_def where
  "v8_performance_def =
     \<lparr>cname = ''V8 Performance'', check = v8_performance_check, interval = 30000, critical = True\<rparr>"

text \<open>
  The one way the source registers a check: \<open>this.healthChecks.set(name, definition)\<close>.
  There is no test for a name that is already there and no error.
\<close>

definition register_check ::
  "string \<Rightarrow> check_def \<Rightarrow> (string, check_def) jsmap \<Rightarrow> (string, check_def) jsmap" where
  "register_check name d healthChecks = map_set name d healthChecks"

definition setupHealthChecks :: "(string, check_def) jsmap \<Rightarrow> (string, check_def) jsmap" where
  "setupHealthChecks healthChecks =
     register_check ''error_rate'' error_rate_def
       (register_check ''response_time'' response_time_def
         (register_check ''memory'' memory_def
           (register_check ''server'' server_def healthChecks)))"

definition setupV8Monitoring ::
  "(string, check_def) jsmap \<times> world \<Rightarrow> (string, check_def) jsmap \<times> world" where
  "setupV8Monitoring hw =
     (register_check ''v8_performance'' v8_performance_def (fst hw),
      logw LInfo ''V8+ performance monitoring enabled'' [] (snd hw))"

subsection \<open>Ordinary objects used as dictionaries\<close>

text \<open>
  \<open>errorsByEndpoint\<close> and the result of \<open>getHealthStatus\<close> are object literals
  \<open>{}\<close> indexed by a computed key, so they inherit from \<open>Object.prototype\<close>. The
  own properties are an association list. Reading a key that is not an own property
  finds what \<open>Object.prototype\<close> has under that name; \<open>inherited\<close> gives its
  conversion to a string (a native function, or \<open>Object.prototype\<close> itself for
  \<open>__proto__\<close>). Writing \<open>obj[k] = v\<close> makes or updates an own property, but for
  \<open>k = "__proto__"\<close> it calls the setter of \<open>Object.prototype\<close>, which makes no
  own property.
\<close>

definition object_prototype_functions :: "string list" where
  "object_prototype_functions =
     [''__defineGetter__'', ''__defineSetter__'', ''hasOwnProperty'', ''__lookupGetter__'',
      ''__lookupSetter__'', ''isPrototypeOf'', ''propertyIsEnumerable'', ''toString'',
      ''valueOf'', ''toLocaleString'']"

definition inherited :: "string \<Rightarrow> string option" where
  "inherited k =
     (if k = ''__proto__'' then Some ''[object Object]''
      else if k = ''constructor'' then Some ''function Object() { [native code] }''
      else if k \<in> set object_prototype_functions
      then Some (''function '' @ k @ ''() { [native code] }'')
      else None)"

text \<open>
  The own properties are listed in the order in which \<open>Object.entries\<close>,
  \<open>Object.values\<close> and a serialisation enumerate them: first the keys that are array
  indices (canonical decimal numerals below \<open>2^32 - 1\<close>) in ascending order, then the
  other keys in the order of their creation. \<open>obj_insert\<close> puts a new key in its place.
\<close>

definition is_digit :: "char \<Rightarrow> bool" where
  "is_digit c = (48 \<le> (of_char c :: nat) \<and> (of_char c :: nat) \<le> 57)"

definition decimal :: "string \<Rightarrow> nat" where
  "decimal k = foldl (\<lambda>n c. 10 * n + ((of_char c :: nat) - 48)) 0 k"

definition is_array_index :: "string \<Rightarrow> bool" where
  "is_array_index k =
     (k \<noteq> [] \<and> list_all is_digit k \<and> (if hd k = CHR ''0'' then length k = 1 else True)
      \<and> decimal k < 4294967295)"

fun obj_insert :: "string \<Rightarrow> 'v \<Rightarrow> (string \<times> 'v) list \<Rightarrow> (string \<times> 'v) list" where
  "obj_insert k v [] = [(k, v)]"
| "obj_insert k v ((k', v') # obj) =
     (if is_array_index k \<and> (if is_array_index k' then decimal k < decimal k' else True)
      then (k, v) # (k', v') # obj
      else (k', v') # obj_insert k v obj)"

definition obj_assign :: "string \<Rightarrow> 'v \<Rightarrow> (string \<times> 'v) list \<Rightarrow> (string \<times> 'v) list" where
  "obj_assign k v obj =
     (if k = ''__proto__'' then obj
      else if map_get obj k \<noteq> None then map_set k v obj
      else obj_insert k v obj)"

subsection \<open>The repairs\<close>

text \<open>\<open>healthStatus.k && !healthStatus.k.healthy\<close>, as a boolean.\<close>

definition unhealthy_at :: "string \<Rightarrow> health_status \<Rightarrow> thrown + bool" where
  "unhealthy_at k healthStatus =
     Inr (case map_get healthStatus k of None \<Rightarrow> False | Some r \<Rightarrow> \<not> healthy r)"

definition memory_cleanup_repair :: "world \<Rightarrow> (thrown + jsval) \<times> world" where
  "memory_cleanup_repair w =
     (let w1 = logw LWarn ''Triggering memory cleanup due to high usage'' [] w;
          w2 = (if gc_available w1 then logw LInfo ''Garbage collection completed'' [] w1 else w1);
          w3 = (if length (performanceMetrics w2) > 1000
                then logw LInfo ''Performance metrics cleaned up'' []
                       (w2\<lparr>performanceMetrics := slice_last 500 (performanceMetrics w2)\<rparr>)
                else w2)
      in (Inr (JObj [(''success'', JBool True), (''action'', JStr ''memory_cleanup'')]), w3))"

definition response_optimization_repair :: "world \<Rightarrow> (thrown + jsval) \<times> world" where
  "response_optimization_repair w =
     (let w1 = logw LWarn ''Optimizing response times due to slow performance'' [] w;
          w2 = w1\<lparr>performanceMetrics := slice_last 100 (performanceMetrics w1)\<rparr>;
          w3 = logw LWarn ''Response time degradation detected - monitoring for patterns'' [] w2
      in (Inr (JObj [(''success'', JBool True), (''action'', JStr ''response_optimization'')]), w3))"

text \<open>
  The values held by \<open>errorsByEndpoint\<close>: a count, or the string that
  \<open>(errorsByEndpoint[k] || 0) + 1\<close> makes when \<open>k\<close> names a property of
  \<open>Object.prototype\<close> (string concatenation). Such a string opens with
  \<open>function\<close> or \<open>[object\<close>, so \<open>count >= 3\<close> compares \<open>NaN\<close> and is false.
\<close>

datatype counter = Count nat | Text string

definition count_endpoint :: "(string \<times> counter) list \<Rightarrow> string \<Rightarrow> (string \<times> counter) list" where
  "count_endpoint errorsByEndpoint k =
     (let cur = (case map_get errorsByEndpoint k of
                   Some v \<Rightarrow> Some v
                 | None \<Rightarrow> map_option Text (inherited k));
          new = (case cur of
                   None \<Rightarrow> Count 1
                 | Some (Count n) \<Rightarrow> Count (n + 1)
                 | Some (Text t) \<Rightarrow> if t = [] then Count 1 else Text (t @ ''1''))
      in obj_assign k new errorsByEndpoint)"

definition counter_val :: "counter \<Rightarrow> jsval" where
  "counter_val c = (case c of Count n \<Rightarrow> num (int n) | Text t \<Rightarrow> JStr t)"

definition at_least_3 :: "counter \<Rightarrow> bool" where
  "at_least_3 c = (case c of Count n \<Rightarrow> n \<ge> 3 | Text t \<Rightarrow> False)"

definition high_error_entry :: "string \<Rightarrow> counter \<Rightarrow> log_entry" where
  "high_error_entry k c =
     Log LError ''High error rate detected''
       [(''endpoint'', JStr k), (''error_count'', counter_val c),
        (''recommendation'', JStr ''Consider endpoint review'')]"

definition error_mitigation_repair :: "world \<Rightarrow> (thrown + jsval) \<times> world" where
  "error_mitigation_repair w =
     (let w1 = logw LWarn ''Analyzing error patterns for mitigation'' [] w;
          recentErrors = slice_last 20 (filter (\<lambda>m. statusCode m \<ge> 400) (performanceMetrics w1));
          errorsByEndpoint = foldl (\<lambda>obj e. count_endpoint obj (endpoint e)) [] recentErrors;
          w2 = foldl (\<lambda>w' kv. if at_least_3 (snd kv)
                                then w'\<lparr>logs := logs w' @ [high_error_entry (fst kv) (snd kv)]\<rparr>
                                else w')
                 w1 errorsByEndpoint
      in (Inr (JObj [(''success'', JBool True), (''action'', JStr ''error_analysis''),
                     (''patterns'', JObj (map (\<lambda>kv. (fst kv, counter_val (snd kv)))
                                           errorsByEndpoint))]),
          w2))"

text \<open>
  The trigger of \<open>stability_check\<close> reads \<open>this.healthChecks\<close>:
  \<open>status && status.healthy === false && this.healthChecks.get(status.component)?.critical\<close>
  over \<open>Object.values(healthStatus)\<close>, and at least two of them.
\<close>

definition critical_issue :: "(string, check_def) jsmap \<Rightarrow> reading \<Rightarrow> bool" where
  "critical_issue healthChecks status =
     (healthy status = False \<and>
      (case component status of
         None \<Rightarrow> False
       | Some c \<Rightarrow> (case map_get healthChecks c of None \<Rightarrow> False | Some d \<Rightarrow> critical d)))"

definition stability_trigger :: "(string, check_def) jsmap \<Rightarrow> health_status \<Rightarrow> thrown + bool" where
  "stability_trigger healthChecks healthStatus =
     (let criticalIssues = filter (critical_issue healthChecks) (map snd healthStatus)
      in Inr (length criticalIssues \<ge> 2))"

definition metric_val :: "metric \<Rightarrow> jsval" where
  "metric_val m =
     JObj [(''endpoint'', JStr (endpoint m)), (''responseTime'', num (responseTime m)),
           (''statusCode'', num (statusCode m)), (''timestamp'', num (recorded_at m))]"

definition stability_repair :: "world \<Rightarrow> (thrown + jsval) \<times> world" where
  "stability_repair w =
     (let w1 = logw LError ''Multiple critical issues detected - system stability at risk'' [] w;
          stabilityReport =
            [(''timestamp'', num (now w1)),
             (''uptime'', JNum (Fin (uptime w1))),
             (''memory_usage'', memoryUsage w1),
             (''recent_errors'',
                JArr (map metric_val
                       (slice_last 10 (filter (\<lambda>m. statusCode m \<ge> 500) (performanceMetrics w1))))),
             (''recommendation'', JStr ''System restart may be required if issues persist'')];
          w2 = logw LError ''Stability Report'' stabilityReport w1
      in (Inr (JObj [(''success'', JBool True), (''action'', JStr ''stability_assessment''),
                     (''report'', JObj stabilityReport)]),
          w2))"

definition memory_cleanup_def :: repair_def where
  "memory_cleanup_def =
     \<lparr>rname = ''Memory Cleanup'', trigger = unhealthy_at ''memory'',
      repair = memory_cleanup_repair, cooldown = 300000\<rparr>"

definition response_optimization_def :: repair_def where
  "response_optimization_def =
     \<lparr>rname = ''Response Time Optimization'', trigger = unhealthy_at ''response_time'',
      repair = response_optimization_repair, cooldown = 600000\<rparr>"

definition error_mitigation_def :: repair_def where
  "error_mitigation_def =
     \<lparr>rname = ''Error Pattern Mitigation'', trigger = unhealthy_at ''error_rate'',
      repair = error_mitigation_repair, cooldown = 900000\<rparr>"

definition stability_check_def :: "(string, check_def) jsmap \<Rightarrow> repair_def" where
  "stability_check_def healthChecks =
     \<lparr>rname = ''System Stability Check'', trigger = stability_trigger healthChecks,
      repair = stability_repair, cooldown = 1800000\<rparr>"

text \<open>
  \<open>setupAutoRepairs\<close>. The registry of checks is a parameter because the trigger of
  \<open>stability_check\<close> closes over \<open>this.healthChecks\<close>.
\<close>

definition setupAutoRepairs ::
  "(string, check_def) jsmap \<Rightarrow> (string, repair_def) jsmap \<Rightarrow> (string, repair_def) jsmap" where
  "setupAutoRepairs healthChecks autoRepairs =
     map_set ''stability_check'' (stability_check_def healthChecks)
       (map_set ''error_mitigation'' error_mitigation_def
         (map_set ''response_optimization'' response_optimization_def
           (map_set ''memory_cleanup'' memory_cleanup_def autoRepairs)))"

subsection \<open>The polling loop\<close>

definition reading_val :: "reading \<Rightarrow> (string \<times> jsval) list" where
  "reading_val r =
     [(''healthy'', JBool (healthy r))] @ details r @ [(''timestamp'', num (timestamp r))]
       @ (case err r of None \<Rightarrow> [] | Some e \<Rightarrow> [(''error'', e)])
       @ (case component r of None \<Rightarrow> [] | Some c \<Rightarrow> [(''component'', JStr c)])"

text \<open>
  The callback that \<open>startMonitoring\<close> gives to \<open>setInterval\<close> for one entry of
  \<open>healthChecks\<close>. It sets \<open>result.component = name\<close> and, when the reading is not
  healthy, calls \<open>triggerHealing({ [name]: result })\<close>: a snapshot with this one
  reading. Its \<open>catch\<close> block reads \<open>error.message\<close> as well; what it throws is
  thrown out of the callback.
\<close>

definition catch_poll :: "check_def \<Rightarrow> thrown \<Rightarrow> sys \<Rightarrow> thrown option \<times> sys" where
  "catch_poll c e s =
     (case error_message e of
        Inl te \<Rightarrow> (Some te, s)
      | Inr m \<Rightarrow>
          (None, s\<lparr>env := logw LError (''Health check error: '' @ cname c)
                              [(''error'', m)] (env s)\<rparr>))"

definition poll_check ::
  "(string, repair_def) jsmap \<Rightarrow> string \<times> check_def \<Rightarrow> sys \<Rightarrow> thrown option \<times> sys" where
  "poll_check autoRepairs entry s =
     (let name = fst entry; c = snd entry in
      case check c (env s) of
        Inl e \<Rightarrow> catch_poll c e s
      | Inr r \<Rightarrow>
          (let result = r\<lparr>component := Some name\<rparr> in
           if \<not> healthy result
           then (case triggerHealing autoRepairs [(name, result)]
                        (s\<lparr>env := logw LWarn (''Health check failed: '' @ cname c)
                                    (reading_val result) (env s)\<rparr>) of
                   (Some e, s') \<Rightarrow> catch_poll c e s'
                 | (None, s') \<Rightarrow> (None, s'))
           else (None, s\<lparr>env := logw LDebug (''Health check passed: '' @ cname c) []
                                     (env s)\<rparr>)))"

text \<open>The second timer of \<open>startMonitoring\<close>.\<close>

definition metrics_auto_clean :: "sys \<Rightarrow> sys" where
  "metrics_auto_clean s =
     (if length (performanceMetrics (env s)) > 2000
      then s\<lparr>env := logw LInfo ''Performance metrics auto-cleaned'' []
                      ((env s)\<lparr>performanceMetrics := slice_last 1000 (performanceMetrics (env s))\<rparr>)\<rparr>
      else s)"

definition startMonitoring :: "sys \<Rightarrow> sys" where
  "startMonitoring s =
     (if isMonitoring s then s
      else s\<lparr>isMonitoring := True,
             env := logw LInfo ''Continuous monitoring started'' [] (env s)\<rparr>)"

definition recordMetric :: "string \<Rightarrow> int \<Rightarrow> int \<Rightarrow> sys \<Rightarrow> sys" where
  "recordMetric ep rt sc s =
     s\<lparr>env := (env s)\<lparr>performanceMetrics := performanceMetrics (env s) @
         [\<lparr>endpoint = ep, responseTime = rt, statusCode = sc, recorded_at = now (env s)\<rparr>]\<rparr>\<rparr>"

subsection \<open>The error pattern tracker\<close>

text \<open>
  An error message is a \<open>string\<close>: each character stands for one code unit below
  256. The four regular expressions of \<open>extractErrorPattern\<close> are lists of atoms: one
  character of a class, a greedy \<open>+\<close> of a class, or \<open>\b\<close>. \<open>rmatch\<close> is the
  backtracking matcher at one position: it gives the length of the match that the
  engine finds first (a \<open>+\<close> tries the longer run first), given the character before
  the position for \<open>\b\<close>.
\<close>

datatype atom = One "char \<Rightarrow> bool" | Many1 "char \<Rightarrow> bool" | WordBoundary

definition in_range :: "nat \<Rightarrow> nat \<Rightarrow> char \<Rightarrow> bool" where
  "in_range lo hi c = (lo \<le> (of_char c :: nat) \<and> (of_char c :: nat) \<le> hi)"

text \<open>\<open>\w\<close> is \<open>[A-Za-z0-9_]\<close>; \<open>\s\<close> below 256 is tab to carriage return, space and U+00A0.\<close>

definition is_word :: "char \<Rightarrow> bool" where
  "is_word c = (in_range 65 90 c \<or> in_range 97 122 c \<or> in_range 48 57 c \<or> c = CHR ''_'')"

definition is_space :: "char \<Rightarrow> bool" where
  "is_space c = (in_range 9 13 c \<or> (of_char c :: nat) = 32 \<or> (of_char c :: nat) = 160)"

text \<open>\<open>[a-f0-9]\<close> under the flag \<open>i\<close>.\<close>

definition is_hex :: "char \<Rightarrow> bool" where
  "is_hex c = (in_range 97 102 c \<or> in_range 65 70 c \<or> in_range 48 57 c)"

definition word_before :: "char option \<Rightarrow> bool" where
  "word_before prev = (case prev of None \<Rightarrow> False | Some c \<Rightarrow> is_word c)"

definition word_at :: "string \<Rightarrow> bool" where
  "word_at s = (case s of [] \<Rightarrow> False | c # _ \<Rightarrow> is_word c)"

fun rmatch :: "atom list \<Rightarrow> char option \<Rightarrow> string \<Rightarrow> nat option" where
  "rmatch [] prev s = Some 0"
| "rmatch (One p # re) prev [] = None"
| "rmatch (One p # re) prev (c # cs) =
     (if p c then map_option Suc (rmatch re (Some c) cs) else None)"
| "rmatch (Many1 p # re) prev [] = None"
| "rmatch (Many1 p # re) prev (c # cs) =
     (if p c
      then (case rmatch (Many1 p # re) (Some c) cs of
              Some n \<Rightarrow> Some (Suc n)
            | None \<Rightarrow> map_option Suc (rmatch re (Some c) cs))
      else None)"
| "rmatch (WordBoundary # re) prev s =
     (if word_before prev \<noteq> word_at s then rmatch re prev s else None)"

text \<open>
  \<open>s.replace(re, rep)\<close> with the flag \<open>g\<close>: the matches are looked for from left to
  right in the original string, the next search starting where the last match ended.
  \<open>skip\<close> counts the characters of the current match that are still to be passed
  over. None of the four expressions matches the empty string.
\<close>

fun replace_from :: "atom list \<Rightarrow> string \<Rightarrow> nat \<Rightarrow> char option \<Rightarrow> string \<Rightarrow> string" where
  "replace_from re rep skip prev [] = []"
| "replace_from re rep skip prev (c # cs) =
     (if skip > 0 then replace_from re rep (skip - 1) (Some c) cs
      else (case rmatch re prev (c # cs) of
              Some (Suc n) \<Rightarrow> rep @ replace_from re rep n (Some c) cs
            | _ \<Rightarrow> c # replace_from re rep 0 (Some c) cs))"

definition replace_all :: "atom list \<Rightarrow> string \<Rightarrow> string \<Rightarrow> string" where
  "replace_all re rep s = replace_from re rep 0 None s"

text \<open>\<open>/\d+/g\<close>\<close>

definition re_number :: "atom list" where
  "re_number = [Many1 (in_range 48 57)]"

text \<open>\<open>/\/[^\s]+/g\<close>\<close>

definition re_path :: "atom list" where
  "re_path = [One (\<lambda>c. c = CHR ''/''), Many1 (\<lambda>c. \<not> is_space c)]"

text \<open>\<open>/[a-f0-9]{8}-[a-f0-9]{4}-[a-f0-9]{4}-[a-f0-9]{4}-[a-f0-9]{12}/gi\<close>\<close>

definition re_uuid :: "atom list" where
  "re_uuid =
     replicate 8 (One is_hex) @ [One (\<lambda>c. c = CHR ''-'')]
       @ replicate 4 (One is_hex) @ [One (\<lambda>c. c = CHR ''-'')]
       @ replicate 4 (One is_hex) @ [One (\<lambda>c. c = CHR ''-'')]
       @ replicate 4 (One is_hex) @ [One (\<lambda>c. c = CHR ''-'')]
       @ replicate 12 (One is_hex)"

text \<open>\<open>/\b\w+@[\w.-]+\.\w+\b/g\<close>\<close>

definition re_email :: "atom list" where
  "re_email =
     [WordBoundary, Many1 is_word, One (\<lambda>c. c = CHR ''@''),
      Many1 (\<lambda>c. is_word c \<or> c = CHR ''.'' \<or> c = CHR ''-''),
      One (\<lambda>c. c = CHR ''.''), Many1 is_word, WordBoundary]"

definition extractErrorPattern :: "string \<Rightarrow> string" where
  "extractErrorPattern errorMessage =
     take 200
       (replace_all re_email ''EMAIL''
         (replace_all re_uuid ''UUID''
           (replace_all re_path ''PATH''
             (replace_all re_number ''NUMBER'' errorMessage))))"

definition analyzeError :: "string \<Rightarrow> sys \<Rightarrow> sys" where
  "analyzeError errorMessage s =
     (let errorKey = extractErrorPattern errorMessage;
          t = now (env s);
          pattern0 = (case map_get (errorPatterns s) errorKey of
                        None \<Rightarrow> \<lparr>count = 0, first_seen = t, last_seen = t, messages = []\<rparr>
                      | Some p \<Rightarrow> p);
          pushed = messages pattern0 @ [(errorMessage, t)];
          pattern = pattern0\<lparr>count := count pattern0 + 1, last_seen := t,
                             messages := (if length pushed > 10 then slice_last 10 pushed
                                          else pushed)\<rparr>;
          s1 = s\<lparr>errorPatterns := map_set errorKey pattern (errorPatterns s)\<rparr>
      in if count pattern \<ge> 5
         then s1\<lparr>env := logw LWarn ''Recurring error pattern detected''
                          [(''pattern'', JStr errorKey), (''count'', num (int (count pattern))),
                           (''first_seen'', num (first_seen pattern)),
                           (''recommendation'', JStr ''Investigation recommended'')] (env s1)\<rparr>
         else s1)"

subsection \<open>The queries\<close>

text \<open>
  \<open>getHealthStatus\<close>: every check is run inside its own \<open>try\<close>, and the result, or
  the record made in the \<open>catch\<close> block, is written with \<open>healthStatus[name] = ...\<close>.
  The record of the \<open>catch\<close> block holds \<open>error.message\<close>: when reading it throws,
  the \<open>TypeError\<close> leaves the method and no object is returned. The result is the
  list of the own properties of \<open>healthStatus\<close>.
\<close>

definition check_failed :: "jsval \<Rightarrow> world \<Rightarrow> reading" where
  "check_failed m w =
     \<lparr>healthy = False, component = None, err = Some m, timestamp = now w, details = []\<rparr>"

definition run_check :: "check_def \<Rightarrow> world \<Rightarrow> thrown + reading" where
  "run_check c w =
     (case check c w of
        Inr r \<Rightarrow> Inr r
      | Inl e \<Rightarrow> (case error_message e of
                    Inl te \<Rightarrow> Inl te
                  | Inr m \<Rightarrow> Inr (check_failed m w)))"

fun health_status_from ::
  "health_status \<Rightarrow> (string, check_def) jsmap \<Rightarrow> world \<Rightarrow> thrown + health_status" where
  "health_status_from healthStatus [] w = Inr healthStatus"
| "health_status_from healthStatus (entry # rest) w =
     (case run_check (snd entry) w of
        Inl te \<Rightarrow> Inl te
      | Inr r \<Rightarrow> health_status_from (obj_assign (fst entry) r healthStatus) rest w)"

definition getHealthStatus :: "(string, check_def) jsmap \<Rightarrow> world \<Rightarrow> thrown + health_status" where
  "getHealthStatus healthChecks w = health_status_from [] healthChecks w"

record history_entry =
  repair_name :: string
  repair_description :: string
  last_attempt :: int
  cooldown_remaining :: int

text \<open>
  One entry of \<open>getHealingHistory\<close>: \<open>repair?.name || repairName\<close> and
  \<open>Math.max(0, (timestamp + (repair?.cooldown || 0)) - Date.now())\<close>. The timestamps
  were read from \<open>Date.now()\<close>, so \<open>toISOString\<close> does not throw on them, and the ISO
  string is modelled by the timestamp.
\<close>

definition history_of :: "(string, repair_def) jsmap \<Rightarrow> int \<Rightarrow> string \<times> int \<Rightarrow> history_entry" where
  "history_of autoRepairs t entry =
     (let repairName = fst entry; ts = snd entry; r = map_get autoRepairs repairName in
      \<lparr>repair_name = repairName,
       repair_description =
         (case r of None \<Rightarrow> repairName
          | Some d \<Rightarrow> if rname d = [] then repairName else rname d),
       last_attempt = ts,
       cooldown_remaining =
         max 0 ((ts + (case r of None \<Rightarrow> 0 | Some d \<Rightarrow> cooldown d)) - t)\<rparr>)"

text \<open>The sort is stable and by descending \<open>last_attempt\<close>.\<close>

definition getHealingHistory :: "(string, repair_def) jsmap \<Rightarrow> sys \<Rightarrow> history_entry list" where
  "getHealingHistory autoRepairs s =
     sort_key (\<lambda>h. - last_attempt h)
       (map (history_of autoRepairs (now (env s))) (healingAttempts s))"

subsection \<open>Sample inputs\<close>

definition world0 :: world where
  "world0 =
     \<lparr>performanceMetrics = [], logs = [], now = 1700000000000, heapUsed = 85, heapTotal = 100,
      uptime = 12, gc_available = False, heapStatistics = []\<rparr>"

definition world1200 :: world where
  "world1200 =
     world0\<lparr>performanceMetrics :=
       map (\<lambda>i. \<lparr>endpoint = ''/api/x'', responseTime = int i, statusCode = 200,
                  recorded_at = 1700000000000\<rparr>) [0..<1200]\<rparr>"

text \<open>A repair whose trigger always fires and whose action always throws.\<close>

definition failing_def :: repair_def where
  "failing_def =
     \<lparr>rname = ''Failing Repair'', trigger = (\<lambda>hs. Inr True),
      repair = (\<lambda>w. (Inl (Thrown (JStr ''boom'')), w)), cooldown = 1000\<rparr>"

definition memory_unhealthy :: health_status where
  "memory_unhealthy =
     [(''memory'', \<lparr>healthy = False, component = Some ''memory'', err = None,
                    timestamp = 1700000000000, details = []\<rparr>)]"

definition failing_then_cleanup :: "(string, repair_def) jsmap" where
  "failing_then_cleanup = [(''failing'', failing_def), (''memory_cleanup'', memory_cleanup_def)]"

definition builtin_checks :: "(string, check_def) jsmap" where
  "builtin_checks = fst (setupV8Monitoring (setupHealthChecks [], world0))"

definition builtin_repairs :: "(string, repair_def) jsmap" where
  "builtin_repairs = setupAutoRepairs builtin_checks []"

text \<open>The clock moves between two timer callbacks.\<close>

definition at_time :: "int \<Rightarrow> sys \<Rightarrow> sys" where
  "at_time t s = s\<lparr>env := (env s)\<lparr>now := t\<rparr>\<rparr>"

text \<open>
  Three passes on an unhealthy memory reading: the first on a new monitor, the second
  one second later, the third five minutes after the first.
\<close>

definition pass1 :: sys where
  "pass1 = snd (triggerHealing builtin_repairs memory_unhealthy (constructor world0))"

definition pass2 :: sys where
  "pass2 = snd (triggerHealing builtin_repairs memory_unhealthy (at_time 1700000001000 pass1))"

definition pass3 :: sys where
  "pass3 = snd (triggerHealing builtin_repairs memory_unhealthy (at_time 1700000300000 pass2))"

text \<open>A repair with the cooldown 0, and a registry for it and for the failing repair.\<close>

definition instant_def :: repair_def where
  "instant_def =
     \<lparr>rname = ''Instant Repair'', trigger = (\<lambda>hs. Inr True),
      repair = (\<lambda>w. (Inr (JBool True), w)), cooldown = 0\<rparr>"

definition only_failing :: "(string, repair_def) jsmap" where
  "only_failing = [(''failing'', failing_def)]"

definition only_instant :: "(string, repair_def) jsmap" where
  "only_instant = [(''instant'', instant_def)]"

text \<open>
  A check whose promise is rejected with no reason (\<open>() => Promise.reject()\<close>),
  registered beside the built-in ones, and a check registered under \<open>__proto__\<close>.
\<close>

definition rejecting_def :: check_def where
  "rejecting_def =
     \<lparr>cname = ''Rejecting'', check = (\<lambda>w. Inl ThrownUndefined), interval = 1000,
      critical = False\<rparr>"

definition checks_with_rejecting :: "(string, check_def) jsmap" where
  "checks_with_rejecting = register_check ''rejecting'' rejecting_def builtin_checks"

definition checks_with_proto :: "(string, check_def) jsmap" where
  "checks_with_proto = register_check ''__proto__'' server_def []"

text \<open>A check that throws an \<open>Error\<close>, registered beside the built-in ones.\<close>

definition probe_def :: check_def where
  "probe_def =
     \<lparr>cname = ''Probe'', check = (\<lambda>w. Inl (Thrown (JStr ''probe failed''))), interval = 1000,
      critical = False\<rparr>"

definition checks_with_probe :: "(string, check_def) jsmap" where
  "checks_with_probe = register_check ''probe'' probe_def builtin_checks"

text \<open>
  Twenty-four error samples and some successful requests. Among the last twenty error
  samples \<open>/api/x\<close> occurs three times and \<open>/api/y\<close> twice; the four oldest error
  samples, all of \<open>/api/y\<close>, are outside the window.
\<close>

definition sample :: "string \<Rightarrow> int \<Rightarrow> metric" where
  "sample ep sc = \<lparr>endpoint = ep, responseTime = 120, statusCode = sc, recorded_at = 1700000000000\<rparr>"


definition world_errors :: world where
  "world_errors =
     world0\<lparr>performanceMetrics :=
       map (\<lambda>ep. sample ep 500) [''/api/y'', ''/api/y'', ''/api/y'', ''/api/y'']
       @ [sample ''/api/x'' 500, sample ''/api/x'' 200, sample ''/a'' 404, sample ''/a'' 404,
          sample ''/api/y'' 500, sample ''/api/y'' 200, sample ''/b'' 500, sample ''/b'' 500,
          sample ''/api/x'' 503, sample ''/c'' 400, sample ''/c'' 401, sample ''/d'' 403,
          sample ''/d'' 500, sample ''/api/y'' 502, sample ''/api/y'' 302, sample ''/e'' 500,
          sample ''/e'' 500, sample ''/f'' 500, sample ''/f'' 500, sample ''/g'' 500,
          sample ''/g'' 500, sample ''/h'' 500, sample ''/api/z'' 200, sample ''/api/x'' 500,
          sample ''/api/z'' 399]\<rparr>"

section \<open>Properties\<close>

subsection \<open>Maps and one pass of triggerHealing\<close>

lemma map_get_map_set: "map_get (map_set k v m) k' = (if k' = k then Some v else map_get m k')"
  by (induction m) (auto simp: map_get_def)

lemma map_set_fresh: "k \<notin> fst ` set m \<Longrightarrow> map_set k v m = m @ [(k, v)]"
  by (induction m) auto

lemma triggerHealing_append:
  "triggerHealing (before @ rest) hs s =
     (case triggerHealing before hs s of
        (Some e, s') \<Rightarrow> (Some e, s')
      | (None, s') \<Rightarrow> triggerHealing rest hs s')"
  by (induction before arbitrary: s) (auto split: prod.splits option.splits)

lemma triggerHealing_reaches:
  "triggerHealing before hs s = (None, s1) \<Longrightarrow>
   triggerHealing (before @ entry # rest) hs s =
     (case heal_one hs entry s1 of
        (Some e, s') \<Rightarrow> (Some e, s')
      | (None, s') \<Rightarrow> triggerHealing rest hs s')"
  by (simp add: triggerHealing_append)

lemma catch_repair_frame:
  "healingAttempts (snd (catch_repair r e s)) = healingAttempts s
   \<and> invoked (snd (catch_repair r e s)) = invoked s"
  by (simp add: catch_repair_def split: sum.splits)

lemma heal_one_attempts_other:
  "k \<noteq> fst entry \<Longrightarrow>
   map_get (healingAttempts (snd (heal_one hs entry s))) k = map_get (healingAttempts s) k"
  by (simp add: heal_one_def Let_def map_get_map_set catch_repair_frame split: sum.splits)

lemma triggerHealing_attempts_other:
  "k \<notin> fst ` set regs \<Longrightarrow>
   map_get (healingAttempts (snd (triggerHealing regs hs s))) k = map_get (healingAttempts s) k"
proof (induction regs arbitrary: s)
  case Nil
  then show ?case by simp
next
  case (Cons entry regs)
  have k: "k \<noteq> fst entry" and ks: "k \<notin> fst ` set regs" using Cons.prems by auto
  obtain o1 s1 where h: "heal_one hs entry s = (o1, s1)" by (cases "heal_one hs entry s")
  have s1: "map_get (healingAttempts s1) k = map_get (healingAttempts s) k"
    using heal_one_attempts_other [OF k, of hs s] h by simp
  show ?case
  proof (cases o1)
    case None
    then show ?thesis using h s1 Cons.IH [OF ks, of s1] by simp
  next
    case (Some e)
    then show ?thesis using h s1 by simp
  qed
qed

lemma heal_one_invoked_other:
  "k \<noteq> fst entry \<Longrightarrow>
   count_list (invoked (snd (heal_one hs entry s))) k = count_list (invoked s) k"
  by (simp add: heal_one_def Let_def catch_repair_frame split: sum.splits)

text \<open>The four ways through the body of the loop when the trigger does not throw.\<close>

lemma heal_one_throws:
  assumes "trigger r hs = Inr True"
    and "\<not> in_cooldown (map_get (healingAttempts s) n) (now (env s)) (cooldown r)"
    and "repair r (logw LInfo (''Triggering repair: '' @ rname r) [] (env s)) = (Inl e, w')"
    and "error_message e = Inr m"
  shows "heal_one hs (n, r) s
           = (None, s\<lparr>invoked := invoked s @ [n], env := repair_failed r m w'\<rparr>)"
  using assms by (simp add: heal_one_def Let_def catch_repair_def)

lemma heal_one_throws_unreadable:
  assumes "trigger r hs = Inr True"
    and "\<not> in_cooldown (map_get (healingAttempts s) n) (now (env s)) (cooldown r)"
    and "repair r (logw LInfo (''Triggering repair: '' @ rname r) [] (env s)) = (Inl e, w')"
    and "error_message e = Inl te"
  shows "heal_one hs (n, r) s = (Some te, s\<lparr>invoked := invoked s @ [n], env := w'\<rparr>)"
  using assms by (simp add: heal_one_def Let_def catch_repair_def)

lemma heal_one_completes:
  assumes "trigger r hs = Inr True"
    and "\<not> in_cooldown (map_get (healingAttempts s) n) (now (env s)) (cooldown r)"
    and "repair r (logw LInfo (''Triggering repair: '' @ rname r) [] (env s)) = (Inr res, w')"
  shows "heal_one hs (n, r) s =
           (None,
            s\<lparr>invoked := invoked s @ [n],
              healingAttempts := map_set n (now w') (healingAttempts s),
              env := logw LInfo (''Repair completed: '' @ rname r) [(''result'', res)] w'\<rparr>)"
  using assms by (simp add: heal_one_def Let_def)

lemma heal_one_cooling:
  assumes "trigger r hs = Inr True"
    and "in_cooldown (map_get (healingAttempts s) n) (now (env s)) (cooldown r)"
  shows "heal_one hs (n, r) s =
           (None, s\<lparr>env := logw LDebug (''Repair '' @ n @ '' in cooldown period'') [] (env s)\<rparr>)"
  using assms by (simp add: heal_one_def Let_def)

lemma heal_one_not_triggered:
  "trigger r hs = Inr False \<Longrightarrow> heal_one hs (n, r) s = (None, s)"
  by (simp add: heal_one_def Let_def)

lemmas sample_defs =
  heal_one_def Let_def constructor_def world0_def failing_def_def instant_def_def only_failing_def
  only_instant_def memory_unhealthy_def failing_then_cleanup_def memory_cleanup_def_def
  unhealthy_at_def map_get_def in_cooldown_def logw_def repair_failed_def catch_repair_def
  error_message_def memory_cleanup_repair_def slice_last_def

subsection \<open>A repair action that throws\<close>

text \<open>
  Claim C1, as the code has it. Take a registry with unique names and a repair in it,
  let the pass reach it, let its trigger return true on the snapshot and the repair not
  be in cooldown, and let its action throw a value whose \<open>message\<close> can be read (any
  value but \<open>null\<close> and \<open>undefined\<close>). Then the exception is caught and logged and
  the pass goes on with the repairs after it; but the timestamp of the repair in
  \<open>healingAttempts\<close> is not written: after the pass it is what it was before the pass.
\<close>

theorem triggerHealing_repair_throws:
  assumes "distinct (map fst autoRepairs)"
    and "autoRepairs = before @ (repairName, r) # rest"
    and "triggerHealing before healthStatus s = (None, s1)"
    and "trigger r healthStatus = Inr True"
    and "\<not> in_cooldown (map_get (healingAttempts s1) repairName) (now (env s1)) (cooldown r)"
    and "repair r (logw LInfo (''Triggering repair: '' @ rname r) [] (env s1)) = (Inl e, w')"
    and "error_message e = Inr m"
  shows "triggerHealing autoRepairs healthStatus s
           = triggerHealing rest healthStatus
               (s1\<lparr>invoked := invoked s1 @ [repairName], env := repair_failed r m w'\<rparr>)
         \<and> map_get (healingAttempts (snd (triggerHealing autoRepairs healthStatus s))) repairName
           = map_get (healingAttempts s) repairName"
proof -
  let ?s2 = "s1\<lparr>invoked := invoked s1 @ [repairName], env := repair_failed r m w'\<rparr>"
  have step: "heal_one healthStatus (repairName, r) s1 = (None, ?s2)"
    using assms(4-7) by (rule heal_one_throws)
  have run: "triggerHealing autoRepairs healthStatus s = triggerHealing rest healthStatus ?s2"
    unfolding assms(2) triggerHealing_reaches [OF assms(3)] step by simp
  have nb: "repairName \<notin> fst ` set before" and nr: "repairName \<notin> fst ` set rest"
    using assms(1) by (auto simp: assms(2))
  have "map_get (healingAttempts (snd (triggerHealing rest healthStatus ?s2))) repairName
          = map_get (healingAttempts ?s2) repairName"
    using nr by (rule triggerHealing_attempts_other)
  also have "\<dots> = map_get (healingAttempts s1) repairName" by simp
  also have "\<dots> = map_get (healingAttempts s) repairName"
    using triggerHealing_attempts_other [OF nb, of healthStatus s] assms(3) by simp
  finally show ?thesis using run by simp
qed

text \<open>
  The theorem at a registry of two repairs, the first of which throws an \<open>Error\<close>: the
  pass goes on to \<open>memory_cleanup\<close>, and the failing repair has no timestamp.
\<close>

theorem triggerHealing_repair_throws_witness:
  "distinct (map fst failing_then_cleanup)
   \<and> trigger failing_def memory_unhealthy = Inr True
   \<and> \<not> in_cooldown (map_get (healingAttempts (constructor world0)) ''failing'')
          (now (env (constructor world0))) (cooldown failing_def)
   \<and> error_message (Thrown (JStr ''boom'')) = Inr (JStr ''boom'')
   \<and> triggerHealing failing_then_cleanup memory_unhealthy (constructor world0)
       = triggerHealing [(''memory_cleanup'', memory_cleanup_def)] memory_unhealthy
           ((constructor world0)\<lparr>invoked := invoked (constructor world0) @ [''failing''],
              env := repair_failed failing_def (JStr ''boom'')
                       (logw LInfo (''Triggering repair: '' @ rname failing_def) []
                          (env (constructor world0)))\<rparr>)
   \<and> map_get (healingAttempts (snd (triggerHealing failing_then_cleanup memory_unhealthy
                                        (constructor world0)))) ''failing''
       = map_get (healingAttempts (constructor world0)) ''failing''"
proof -
  have h1: "distinct (map fst failing_then_cleanup)"
    by (simp add: failing_then_cleanup_def)
  have h2: "failing_then_cleanup
              = [] @ (''failing'', failing_def) # [(''memory_cleanup'', memory_cleanup_def)]"
    by (simp add: failing_then_cleanup_def)
  have h3: "triggerHealing [] memory_unhealthy (constructor world0) = (None, constructor world0)"
    by simp
  have h4: "trigger failing_def memory_unhealthy = Inr True"
    by (simp add: failing_def_def)
  have h5: "\<not> in_cooldown (map_get (healingAttempts (constructor world0)) ''failing'')
                (now (env (constructor world0))) (cooldown failing_def)"
    by (simp add: constructor_def map_get_def in_cooldown_def)
  have h6: "repair failing_def
              (logw LInfo (''Triggering repair: '' @ rname failing_def) [] (env (constructor world0)))
            = (Inl (Thrown (JStr ''boom'')),
               logw LInfo (''Triggering repair: '' @ rname failing_def) [] (env (constructor world0)))"
    by (simp add: failing_def_def)
  have h7: "error_message (Thrown (JStr ''boom'')) = Inr (JStr ''boom'')"
    by (simp add: error_message_def)
  from triggerHealing_repair_throws [OF h1 h2 h3 h4 h5 h6 h7] h1 h4 h5 h7 show ?thesis by blast
qed

text \<open>
  Claim C1 as the spec states it fails. The trigger of \<open>failing\<close> returns true, the
  repair has never run, its action throws an \<open>Error\<close>, it is invoked in the pass (and
  so is the repair after it), and after the pass \<open>healingAttempts\<close> has no timestamp
  for it.
\<close>

theorem repair_throws_timestamp_counterexample:
  "trigger failing_def memory_unhealthy = Inr True
   \<and> map_get (healingAttempts (constructor world0)) ''failing'' = None
   \<and> fst (repair failing_def
            (logw LInfo (''Triggering repair: '' @ rname failing_def) [] (env (constructor world0))))
       = Inl (Thrown (JStr ''boom''))
   \<and> fst (triggerHealing failing_then_cleanup memory_unhealthy (constructor world0)) = None
   \<and> invoked (snd (triggerHealing failing_then_cleanup memory_unhealthy (constructor world0)))
       = [''failing'', ''memory_cleanup'']
   \<and> map_get (healingAttempts (snd (triggerHealing failing_then_cleanup memory_unhealthy
                                        (constructor world0)))) ''failing'' = None"
  by (simp add: sample_defs)

subsection \<open>Registering a check twice\<close>

text \<open>
  Claim C2, as the code has it. Registering a check under a name that is already
  registered raises no error: the registry then holds the second definition under that
  name, every other name keeps its definition, and the names and their order are those
  of the registry after the first registration.
\<close>

theorem register_check_replaces:
  "map_get (register_check name d2 (register_check name d1 healthChecks)) k
     = (if k = name then Some d2 else map_get healthChecks k)
   \<and> map fst (register_check name d2 (register_check name d1 healthChecks))
     = map fst (register_check name d1 healthChecks)"
  by (induction healthChecks) (auto simp: register_check_def map_get_def)

text \<open>
  Claim C2 as the spec states it fails: after \<open>setupHealthChecks\<close> the check
  \<open>memory\<close> has the interval 15000; registering the definition of \<open>server\<close> under
  the name \<open>memory\<close> leaves the registry with the interval 30000 under \<open>memory\<close>.
\<close>

theorem register_check_duplicate_counterexample:
  "map_option interval (map_get (setupHealthChecks []) ''memory'') = Some 15000
   \<and> map_option interval
        (map_get (register_check ''memory'' server_def (setupHealthChecks [])) ''memory'')
       = Some 30000"
  by (simp add: setupHealthChecks_def register_check_def map_get_def memory_def_def server_def_def)

subsection \<open>The memory check\<close>

text \<open>
  Claim C5. For every memory snapshot of a process (the heap total is positive), the
  memory check returns a reading, and its \<open>healthy\<close> flag is false if and only if
  \<open>heapUsed / heapTotal\<close> is at least 0.85.
\<close>

theorem memory_check_unhealthy_iff:
  assumes "0 < heapTotal w"
  shows "\<exists>r. memory_check w = Inr r \<and>
           ((healthy r = False)
              = (85 / 100 \<le> rat_of_nat (heapUsed w) / rat_of_nat (heapTotal w)))"
  using assms
  by (auto simp add: memory_check_def Let_def js_div_def js_times_def js_lt_def field_simps)

theorem memory_check_unhealthy_iff_witness:
  "0 < heapTotal world0
   \<and> (\<exists>r. memory_check world0 = Inr r \<and>
           ((healthy r = False)
              = (85 / 100 \<le> rat_of_nat (heapUsed world0) / rat_of_nat (heapTotal world0))))"
proof -
  have h: "0 < heapTotal world0" by (simp add: world0_def)
  from memory_check_unhealthy_iff [OF h] h show ?thesis by blast
qed

subsection \<open>Error patterns\<close>

lemma pattern_key_abc:
  "extractErrorPattern ''failed at /tmp/abc123 for user 42'' = ''failed at PATH for user NUMBER''"
  by code_simp

lemma pattern_key_xyz:
  "extractErrorPattern ''failed at /tmp/xyz789 for user 99'' = ''failed at PATH for user NUMBER''"
  by code_simp

text \<open>
  Claim C6. The two messages have the same pattern key, and recording both on a tracker
  with no pattern leaves exactly one pattern, under that key, with the count 2.
\<close>

theorem error_pattern_same_key:
  "extractErrorPattern ''failed at /tmp/abc123 for user 42''
     = extractErrorPattern ''failed at /tmp/xyz789 for user 99''
   \<and> map (\<lambda>kp. (fst kp, count (snd kp)))
         (errorPatterns (analyzeError ''failed at /tmp/xyz789 for user 99''
            (analyzeError ''failed at /tmp/abc123 for user 42'' (s\<lparr>errorPatterns := []\<rparr>))))
       = [(''failed at PATH for user NUMBER'', 2)]"
  by (simp add: pattern_key_abc pattern_key_xyz analyzeError_def Let_def map_get_def)

subsection \<open>The memory cleanup repair\<close>

text \<open>
  Claim C7. When the performance-metric sequence has more than 1000 entries, the action
  of \<open>memory_cleanup\<close> leaves it with its last 500 entries: exactly 500 of them.
\<close>

theorem memory_cleanup_trims:
  assumes "length (performanceMetrics w) > 1000"
  shows "performanceMetrics (snd (memory_cleanup_repair w))
           = drop (length (performanceMetrics w) - 500) (performanceMetrics w)
         \<and> length (performanceMetrics (snd (memory_cleanup_repair w))) = 500"
  using assms by (simp add: memory_cleanup_repair_def Let_def logw_def slice_last_def)

text \<open>A sequence of length 1200: the entries 700 to 1199 are left.\<close>

theorem memory_cleanup_trims_witness:
  "length (performanceMetrics world1200) = 1200
   \<and> performanceMetrics (snd (memory_cleanup_repair world1200))
       = drop 700 (performanceMetrics world1200)
   \<and> length (performanceMetrics (snd (memory_cleanup_repair world1200))) = 500"
proof -
  have h: "length (performanceMetrics world1200) = 1200"
    by (simp add: world1200_def)
  then have "length (performanceMetrics world1200) > 1000" by simp
  from memory_cleanup_trims [OF this] h show ?thesis by simp
qed

subsection \<open>The built-in registries\<close>

lemma builtin_checks_eval:
  "builtin_checks =
     [(''server'', server_def), (''memory'', memory_def), (''response_time'', response_time_def),
      (''error_rate'', error_rate_def), (''v8_performance'', v8_performance_def)]"
  by (simp add: builtin_checks_def setupV8Monitoring_def setupHealthChecks_def register_check_def)

lemma setupAutoRepairs_empty:
  "setupAutoRepairs hc [] =
     [(''memory_cleanup'', memory_cleanup_def),
      (''response_optimization'', response_optimization_def),
      (''error_mitigation'', error_mitigation_def),
      (''stability_check'', stability_check_def hc)]"
  by (simp add: setupAutoRepairs_def)

lemmas pass_defs =
  builtin_repairs_def setupAutoRepairs_empty builtin_checks_eval heal_one_def
  Let_def constructor_def world0_def memory_unhealthy_def memory_cleanup_def_def
  response_optimization_def_def error_mitigation_def_def stability_check_def_def unhealthy_at_def
  stability_trigger_def critical_issue_def memory_def_def map_get_def in_cooldown_def logw_def
  memory_cleanup_repair_def at_time_def

lemma pass1_eval:
  "healingAttempts pass1 = [(''memory_cleanup'', 1700000000000)]
   \<and> invoked pass1 = [''memory_cleanup''] \<and> now (env pass1) = 1700000000000"
  by (simp add: pass1_def pass_defs)

lemma pass2_eval:
  "healingAttempts pass2 = [(''memory_cleanup'', 1700000000000)]
   \<and> invoked pass2 = [''memory_cleanup'']"
  by (simp add: pass2_def pass1_def pass_defs)

lemma pass3_eval:
  "healingAttempts pass3 = [(''memory_cleanup'', 1700000300000)]
   \<and> invoked pass3 = [''memory_cleanup'', ''memory_cleanup'']"
  by (simp add: pass3_def pass2_def pass1_def pass_defs)

subsection \<open>Cooldown\<close>

lemma memory_cleanup_clock: "now (snd (memory_cleanup_repair w)) = now w"
  by (simp add: memory_cleanup_repair_def Let_def logw_def)

lemma heal_one_runs:
  assumes "trigger r hs = Inr True"
    and "\<not> in_cooldown (map_get (healingAttempts s) n) (now (env s)) (cooldown r)"
  shows "invoked (snd (heal_one hs (n, r) s)) = invoked s @ [n]"
  using assms by (simp add: heal_one_def Let_def catch_repair_frame split: sum.splits)

text \<open>
  The trace of a pass is the trace before it and then names of the registry; a pass that
  adds nothing to the trace leaves \<open>healingAttempts\<close> as it is.
\<close>

lemma heal_one_trace:
  "\<exists>b. invoked (snd (heal_one hs (k, r) s)) = invoked s @ (if b then [k] else [])
       \<and> (b \<longrightarrow> trigger r hs = Inr True
                 \<and> \<not> in_cooldown (map_get (healingAttempts s) k) (now (env s)) (cooldown r))
       \<and> (\<not> b \<longrightarrow> healingAttempts (snd (heal_one hs (k, r) s)) = healingAttempts s)"
proof (cases "trigger r hs = Inr True
              \<and> \<not> in_cooldown (map_get (healingAttempts s) k) (now (env s)) (cooldown r)")
  case True
  then show ?thesis
    using heal_one_runs [of r hs s k] by (intro exI [of _ True]) simp
next
  case False
  then show ?thesis
    by (intro exI [of _ False])
       (auto simp add: heal_one_def Let_def catch_repair_frame split: sum.splits)
qed

lemma triggerHealing_trace:
  "\<exists>xs. invoked (snd (triggerHealing regs hs s)) = invoked s @ xs
        \<and> set xs \<subseteq> fst ` set regs
        \<and> (xs = [] \<longrightarrow> healingAttempts (snd (triggerHealing regs hs s)) = healingAttempts s)"
proof (induction regs arbitrary: s)
  case Nil
  then show ?case by simp
next
  case (Cons entry regs)
  obtain k r where entry: "entry = (k, r)" by (cases entry)
  obtain o1 s1 where h: "heal_one hs (k, r) s = (o1, s1)" by (cases "heal_one hs (k, r) s")
  obtain b where b: "invoked s1 = invoked s @ (if b then [k] else [])"
    "\<not> b \<longrightarrow> healingAttempts s1 = healingAttempts s"
    using heal_one_trace [of hs k r s] unfolding h by auto
  show ?case
  proof (cases o1)
    case (Some e)
    then show ?thesis
      using h b entry
      by (intro exI [of _ "if b then [k] else []"]) (auto split: if_splits)
  next
    case None
    obtain xs where xs: "invoked (snd (triggerHealing regs hs s1)) = invoked s1 @ xs"
      "set xs \<subseteq> fst ` set regs"
      "xs = [] \<longrightarrow> healingAttempts (snd (triggerHealing regs hs s1)) = healingAttempts s1"
      using Cons.IH [of s1] by blast
    show ?thesis
      using None h b xs entry
      by (intro exI [of _ "(if b then [k] else []) @ xs"]) (auto split: if_splits)
  qed
qed

lemma triggerHealing_invoked_other:
  assumes "k \<notin> fst ` set regs"
  shows "count_list (invoked (snd (triggerHealing regs hs s))) k = count_list (invoked s) k"
proof -
  obtain xs where "invoked (snd (triggerHealing regs hs s)) = invoked s @ xs"
    and "set xs \<subseteq> fst ` set regs"
    using triggerHealing_trace [of regs hs s] by blast
  then show ?thesis using assms by (auto simp: count_list_0_iff)
qed

lemma pass_invoked:
  assumes "distinct (map fst autoRepairs)" and "autoRepairs = before @ (n, r) # rest"
    and "fst (triggerHealing before hs s) = None"
  shows "count_list (invoked (snd (triggerHealing autoRepairs hs s))) n
           = count_list (invoked (snd (heal_one hs (n, r) (snd (triggerHealing before hs s))))) n"
proof -
  have nr: "n \<notin> fst ` set rest" using assms(1,2) by auto
  obtain a where a: "triggerHealing before hs s = (None, a)"
    using assms(3) by (cases "triggerHealing before hs s") simp
  obtain o1 s1 where h: "heal_one hs (n, r) a = (o1, s1)" by (cases "heal_one hs (n, r) a")
  show ?thesis
    unfolding assms(2) triggerHealing_reaches [OF a] using h a
    by (cases o1) (simp_all add: triggerHealing_invoked_other [OF nr])
qed

lemma pass_attempts:
  assumes "distinct (map fst autoRepairs)" and "autoRepairs = before @ (n, r) # rest"
    and "fst (triggerHealing before hs s) = None"
  shows "map_get (healingAttempts (snd (triggerHealing autoRepairs hs s))) n
           = map_get (healingAttempts (snd (heal_one hs (n, r)
                                              (snd (triggerHealing before hs s))))) n"
proof -
  have nr: "n \<notin> fst ` set rest" using assms(1,2) by auto
  obtain a where a: "triggerHealing before hs s = (None, a)"
    using assms(3) by (cases "triggerHealing before hs s") simp
  obtain o1 s1 where h: "heal_one hs (n, r) a = (o1, s1)" by (cases "heal_one hs (n, r) a")
  show ?thesis
    unfolding assms(2) triggerHealing_reaches [OF a] using h a
    by (cases o1) (simp_all add: triggerHealing_attempts_other [OF nr])
qed

lemma before_pass:
  assumes "distinct (map fst autoRepairs)" and "autoRepairs = before @ (n, r) # rest"
  shows "count_list (invoked (snd (triggerHealing before hs s))) n = count_list (invoked s) n"
    and "map_get (healingAttempts (snd (triggerHealing before hs s))) n
           = map_get (healingAttempts s) n"
proof -
  have nb: "n \<notin> fst ` set before" using assms by auto
  show "count_list (invoked (snd (triggerHealing before hs s))) n = count_list (invoked s) n"
    using nb by (rule triggerHealing_invoked_other)
  show "map_get (healingAttempts (snd (triggerHealing before hs s))) n
          = map_get (healingAttempts s) n"
    using nb by (rule triggerHealing_attempts_other)
qed

text \<open>
  Claim C3, as the code has it. Take a registry with unique names and in it a repair
  \<open>n\<close> with a positive cooldown that has never run, and three passes that reach it
  (nothing is thrown out of the loop before it). In a first pass on a triggering
  snapshot its action is invoked; let it complete without throwing, and let the
  timestamp then written (the clock after the action) not be 0. A second pass on a
  triggering snapshot that reaches the repair less than the cooldown after that
  timestamp does not invoke the action: it has been invoked exactly once. A third pass
  that reaches the repair when the cooldown has elapsed since that timestamp invokes it
  again. Between the passes the world may change in any way; \<open>healingAttempts\<close> is
  written by \<open>triggerHealing\<close> only.
\<close>

theorem cooldown_limits_repair:
  assumes regs: "distinct (map fst autoRepairs)" "autoRepairs = before @ (n, r) # rest"
    and cd: "0 < cooldown r"
    and never: "map_get (healingAttempts s) n = None"
    and r1: "fst (triggerHealing before hs1 s) = None"
    and t1: "trigger r hs1 = Inr True"
    and ok: "repair r (logw LInfo (''Triggering repair: '' @ rname r) []
                        (env (snd (triggerHealing before hs1 s)))) = (Inr res, w1)"
    and nz: "now w1 \<noteq> 0"
    and p1: "p1 = snd (triggerHealing autoRepairs hs1 s)"
    and s2: "healingAttempts s2 = healingAttempts p1" "invoked s2 = invoked p1"
    and r2: "fst (triggerHealing before hs2 s2) = None"
    and t2: "trigger r hs2 = Inr True"
    and within: "now (env (snd (triggerHealing before hs2 s2))) - now w1 < cooldown r"
    and p2: "p2 = snd (triggerHealing autoRepairs hs2 s2)"
    and s3: "healingAttempts s3 = healingAttempts p2" "invoked s3 = invoked p2"
    and r3: "fst (triggerHealing before hs3 s3) = None"
    and t3: "trigger r hs3 = Inr True"
    and elapsed: "cooldown r \<le> now (env (snd (triggerHealing before hs3 s3))) - now w1"
  shows "count_list (invoked p1) n = count_list (invoked s) n + 1
         \<and> map_get (healingAttempts p1) n = Some (now w1)
         \<and> count_list (invoked p2) n = count_list (invoked s) n + 1
         \<and> map_get (healingAttempts p2) n = Some (now w1)
         \<and> count_list (invoked (snd (triggerHealing autoRepairs hs3 s3))) n
             = count_list (invoked s) n + 2"
proof -
  let ?a1 = "snd (triggerHealing before hs1 s)"
  let ?a2 = "snd (triggerHealing before hs2 s2)"
  let ?a3 = "snd (triggerHealing before hs3 s3)"
  note b = before_pass [OF regs]
  have free1: "\<not> in_cooldown (map_get (healingAttempts ?a1) n) (now (env ?a1)) (cooldown r)"
    by (simp add: b never in_cooldown_def)
  have step1: "heal_one hs1 (n, r) ?a1 =
                 (None,
                  ?a1\<lparr>invoked := invoked ?a1 @ [n],
                      healingAttempts := map_set n (now w1) (healingAttempts ?a1),
                      env := logw LInfo (''Repair completed: '' @ rname r) [(''result'', res)] w1\<rparr>)"
    using t1 free1 ok by (rule heal_one_completes)
  have i1: "count_list (invoked p1) n = count_list (invoked s) n + 1"
    unfolding p1 pass_invoked [OF regs r1] step1 by (simp add: b)
  have h1: "map_get (healingAttempts p1) n = Some (now w1)"
    unfolding p1 pass_attempts [OF regs r1] step1 by (simp add: map_get_map_set)
  have busy2: "in_cooldown (map_get (healingAttempts ?a2) n) (now (env ?a2)) (cooldown r)"
    using nz within by (simp add: b s2 h1 in_cooldown_def)
  have step2: "heal_one hs2 (n, r) ?a2 =
                 (None,
                  ?a2\<lparr>env := logw LDebug (''Repair '' @ n @ '' in cooldown period'') []
                                (env ?a2)\<rparr>)"
    using t2 busy2 by (rule heal_one_cooling)
  have i2: "count_list (invoked p2) n = count_list (invoked s) n + 1"
    unfolding p2 pass_invoked [OF regs r2] step2 by (simp add: b s2 i1)
  have h2: "map_get (healingAttempts p2) n = Some (now w1)"
    unfolding p2 pass_attempts [OF regs r2] step2 by (simp add: b s2 h1)
  have free3: "\<not> in_cooldown (map_get (healingAttempts ?a3) n) (now (env ?a3)) (cooldown r)"
    using elapsed by (simp add: b s3 h2 in_cooldown_def)
  have i3: "count_list (invoked (snd (triggerHealing autoRepairs hs3 s3))) n
              = count_list (invoked s) n + 2"
    unfolding pass_invoked [OF regs r3] heal_one_runs [OF t3 free3] by (simp add: b s3 i2)
  show ?thesis using i1 h1 i2 h2 i3 by simp
qed

text \<open>
  The theorem on the built-in registry, for \<open>memory_cleanup\<close> (cooldown 300000), the
  first repair of the registry: a first pass at time 1700000000000, a second one second
  later, a third 300000 later.
\<close>

theorem cooldown_limits_repair_witness:
  "distinct (map fst builtin_repairs)
   \<and> 0 < cooldown memory_cleanup_def
   \<and> map_get (healingAttempts (constructor world0)) ''memory_cleanup'' = None
   \<and> trigger memory_cleanup_def memory_unhealthy = Inr True
   \<and> now (env (at_time 1700000001000 pass1)) - 1700000000000 < cooldown memory_cleanup_def
   \<and> cooldown memory_cleanup_def \<le> now (env (at_time 1700000300000 pass2)) - 1700000000000
   \<and> count_list (invoked pass1) ''memory_cleanup'' = 1
   \<and> map_get (healingAttempts pass1) ''memory_cleanup'' = Some 1700000000000
   \<and> count_list (invoked pass2) ''memory_cleanup'' = 1
   \<and> map_get (healingAttempts pass2) ''memory_cleanup'' = Some 1700000000000
   \<and> count_list (invoked pass3) ''memory_cleanup'' = 2"
proof -
  let ?rest = "[(''response_optimization'', response_optimization_def),
                (''error_mitigation'', error_mitigation_def),
                (''stability_check'', stability_check_def builtin_checks)]"
  let ?w = "logw LInfo (''Triggering repair: '' @ rname memory_cleanup_def) []
              (env (snd (triggerHealing [] memory_unhealthy (constructor world0))))"
  let ?w1 = "snd (memory_cleanup_repair ?w)"
  let ?res = "JObj [(''success'', JBool True), (''action'', JStr ''memory_cleanup'')]"
  have regs1: "distinct (map fst builtin_repairs)"
    by (simp add: builtin_repairs_def setupAutoRepairs_empty)
  have regs2: "builtin_repairs = [] @ (''memory_cleanup'', memory_cleanup_def) # ?rest"
    by (simp add: builtin_repairs_def setupAutoRepairs_empty)
  have cd: "0 < cooldown memory_cleanup_def"
    by (simp add: memory_cleanup_def_def)
  have never: "map_get (healingAttempts (constructor world0)) ''memory_cleanup'' = None"
    by (simp add: constructor_def map_get_def)
  have reach: "fst (triggerHealing [] memory_unhealthy s) = None" for s
    by simp
  have t: "trigger memory_cleanup_def memory_unhealthy = Inr True"
    by (simp add: memory_cleanup_def_def unhealthy_at_def memory_unhealthy_def map_get_def)
  have ok: "repair memory_cleanup_def ?w = (Inr ?res, ?w1)"
    by (simp add: memory_cleanup_def_def memory_cleanup_repair_def Let_def)
  have nz: "now ?w1 \<noteq> 0"
    by (simp add: memory_cleanup_clock logw_def constructor_def world0_def)
  have p1: "pass1 = snd (triggerHealing builtin_repairs memory_unhealthy (constructor world0))"
    by (simp add: pass1_def)
  have s2: "healingAttempts (at_time 1700000001000 pass1) = healingAttempts pass1"
    "invoked (at_time 1700000001000 pass1) = invoked pass1"
    by (simp_all add: at_time_def)
  have within0: "now (env (at_time 1700000001000 pass1)) - 1700000000000
                   < cooldown memory_cleanup_def"
    by (simp add: at_time_def memory_cleanup_def_def)
  have within: "now (env (snd (triggerHealing [] memory_unhealthy
                                 (at_time 1700000001000 pass1))))
                  - now ?w1 < cooldown memory_cleanup_def"
    by (simp add: memory_cleanup_clock logw_def constructor_def world0_def
          at_time_def memory_cleanup_def_def)
  have p2: "pass2 = snd (triggerHealing builtin_repairs memory_unhealthy
                           (at_time 1700000001000 pass1))"
    by (simp add: pass2_def)
  have s3: "healingAttempts (at_time 1700000300000 pass2) = healingAttempts pass2"
    "invoked (at_time 1700000300000 pass2) = invoked pass2"
    by (simp_all add: at_time_def)
  have elapsed0: "cooldown memory_cleanup_def
                    \<le> now (env (at_time 1700000300000 pass2)) - 1700000000000"
    by (simp add: at_time_def memory_cleanup_def_def)
  have elapsed: "cooldown memory_cleanup_def
                   \<le> now (env (snd (triggerHealing [] memory_unhealthy
                                      (at_time 1700000300000 pass2)))) - now ?w1"
    by (simp add: memory_cleanup_clock logw_def constructor_def world0_def
          at_time_def memory_cleanup_def_def)
  have i0: "count_list (invoked (constructor world0)) ''memory_cleanup'' = 0"
    by (simp add: constructor_def)
  from cooldown_limits_repair [OF regs1 regs2 cd never reach t ok nz p1 s2 reach t within p2 s3
         reach t elapsed]
  have "count_list (invoked pass1) ''memory_cleanup'' = 1
        \<and> map_get (healingAttempts pass1) ''memory_cleanup'' = Some 1700000000000
        \<and> count_list (invoked pass2) ''memory_cleanup'' = 1
        \<and> map_get (healingAttempts pass2) ''memory_cleanup'' = Some 1700000000000
        \<and> count_list (invoked pass3) ''memory_cleanup'' = 2"
    by (simp add: i0 pass3_def memory_cleanup_clock logw_def constructor_def world0_def)
  with regs1 cd never t within0 elapsed0 show ?thesis by blast
qed

text \<open>
  Claim C3 as the spec states it fails, in two ways. The repair \<open>failing\<close> has a
  positive cooldown and has never run; its action throws, no timestamp is written, and
  a second pass at the same clock reading invokes it a second time. The repair
  \<open>memory_cleanup\<close> completes, but when the clock reads 0 the timestamp written is 0,
  which the cooldown test takes for no timestamp: a second pass at the same clock
  reading invokes it a second time.
\<close>

theorem cooldown_counterexample:
  "0 < cooldown failing_def
   \<and> map_get (healingAttempts (constructor world0)) ''failing'' = None
   \<and> trigger failing_def memory_unhealthy = Inr True
   \<and> invoked (snd (triggerHealing [(''failing'', failing_def)] memory_unhealthy
                 (snd (triggerHealing [(''failing'', failing_def)] memory_unhealthy
                         (constructor world0)))))
       = [''failing'', ''failing'']
   \<and> 0 < cooldown memory_cleanup_def
   \<and> trigger memory_cleanup_def memory_unhealthy = Inr True
   \<and> invoked (snd (triggerHealing [(''memory_cleanup'', memory_cleanup_def)] memory_unhealthy
                 (snd (triggerHealing [(''memory_cleanup'', memory_cleanup_def)] memory_unhealthy
                         (constructor (world0\<lparr>now := 0\<rparr>))))))
       = [''memory_cleanup'', ''memory_cleanup'']"
  by (simp add: sample_defs)

subsection \<open>The stability check and the polling loop\<close>

lemma stability_single: "stability_trigger hc [(name, r)] = Inr False"
  by (simp add: stability_trigger_def Let_def)

lemma triggerHealing_not_triggered:
  assumes "\<And>r. (k, r) \<in> set regs \<Longrightarrow> trigger r hs = Inr False"
  shows "count_list (invoked (snd (triggerHealing regs hs s))) k = count_list (invoked s) k"
  using assms
proof (induction regs arbitrary: s)
  case Nil
  then show ?case by simp
next
  case (Cons entry regs)
  obtain k' r where entry: "entry = (k', r)" by (cases entry)
  obtain o1 s1 where h: "heal_one hs (k', r) s = (o1, s1)" by (cases "heal_one hs (k', r) s")
  have s1: "count_list (invoked s1) k = count_list (invoked s) k"
  proof (cases "k' = k")
    case True
    then have "trigger r hs = Inr False" using Cons.prems entry by simp
    then show ?thesis using h by (simp add: heal_one_not_triggered)
  next
    case False
    then show ?thesis using heal_one_invoked_other [of k "(k', r)" hs s] h by simp
  qed
  have IH: "count_list (invoked (snd (triggerHealing regs hs s1))) k = count_list (invoked s1) k"
    using Cons.prems by (intro Cons.IH) simp
  show ?case using h s1 IH entry by (cases o1) simp_all
qed

lemma builtin_pass_no_stability:
  "count_list (invoked (snd (triggerHealing (setupAutoRepairs hc []) [(name, r)] s)))
     ''stability_check''
     = count_list (invoked s) ''stability_check''"
  by (rule triggerHealing_not_triggered)
     (auto simp: setupAutoRepairs_empty stability_check_def_def stability_single)

lemma catch_poll_invoked: "invoked (snd (catch_poll c e s)) = invoked s"
  by (simp add: catch_poll_def split: sum.splits)

text \<open>
  Claim C4. On a snapshot that holds exactly one reading the trigger of
  \<open>stability_check\<close> returns false, whatever the reading and the registry of checks;
  and the callback of the polling loop, which calls \<open>triggerHealing\<close> with such a
  snapshot, never invokes the action of \<open>stability_check\<close>: the number of its
  invocations is the same after the callback as before.
\<close>

theorem stability_check_never_from_polling:
  "stability_trigger healthChecks [(name, result)] = Inr False
   \<and> count_list (invoked (snd (poll_check (setupAutoRepairs healthChecks []) entry s)))
         ''stability_check''
       = count_list (invoked s) ''stability_check''"
proof -
  have "count_list (invoked (snd (poll_check (setupAutoRepairs healthChecks []) entry s)))
          ''stability_check''
        = count_list (invoked s) ''stability_check''"
  proof (cases "check (snd entry) (env s)")
    case (Inl e)
    then show ?thesis by (simp add: poll_check_def Let_def catch_poll_invoked)
  next
    case (Inr r)
    let ?result = "r\<lparr>component := Some (fst entry)\<rparr>"
    let ?s' = "s\<lparr>env := logw LWarn (''Health check failed: '' @ cname (snd entry))
                          (reading_val ?result) (env s)\<rparr>"
    obtain o1 s1 where t: "triggerHealing (setupAutoRepairs healthChecks [])
                             [(fst entry, ?result)] ?s' = (o1, s1)"
      by (cases "triggerHealing (setupAutoRepairs healthChecks []) [(fst entry, ?result)] ?s'")
    have s1: "count_list (invoked s1) ''stability_check'' = count_list (invoked s) ''stability_check''"
      using builtin_pass_no_stability [of healthChecks "fst entry" ?result ?s'] t by simp
    show ?thesis
      using Inr t s1 by (cases o1) (simp_all add: poll_check_def Let_def catch_poll_invoked)
  qed
  then show ?thesis by (simp add: stability_single)
qed

subsection \<open>Objects\<close>

lemma map_set_keys: "fst ` set (map_set k v m) = insert k (fst ` set m)"
proof (induction m)
  case Nil
  then show ?case by simp
next
  case (Cons p m)
  then show ?case by (cases p) (simp add: insert_commute)
qed

lemma distinct_map_set: "distinct (map fst m) \<Longrightarrow> distinct (map fst (map_set k v m))"
  by (induction m) (auto simp: map_set_keys)

lemma obj_insert_keys: "fst ` set (obj_insert k v m) = insert k (fst ` set m)"
proof (induction m)
  case Nil
  then show ?case by simp
next
  case (Cons p m)
  then show ?case by (cases p) (simp add: insert_commute)
qed

lemma distinct_obj_insert:
  "distinct (map fst m) \<Longrightarrow> k \<notin> fst ` set m \<Longrightarrow> distinct (map fst (obj_insert k v m))"
  by (induction m) (auto simp: obj_insert_keys)

lemma map_get_obj_insert:
  "k \<notin> fst ` set m \<Longrightarrow>
   map_get (obj_insert k v m) k' = (if k' = k then Some v else map_get m k')"
  by (induction m) (auto simp: map_get_def)

lemma map_get_Cons: "map_get ((a, b) # m) k = (if k = a then Some b else map_get m k)"
  by (simp add: map_get_def)

lemma map_get_None: "map_get m k = None \<longleftrightarrow> k \<notin> fst ` set m"
  by (simp add: map_get_def map_of_eq_None_iff)

text \<open>An assignment to a key other than \<open>__proto__\<close> is a map update.\<close>

lemma map_get_obj_assign:
  "k \<noteq> ''__proto__'' \<Longrightarrow>
   map_get (obj_assign k v m) k' = (if k' = k then Some v else map_get m k')"
  by (simp add: obj_assign_def map_get_map_set map_get_obj_insert map_get_None)

lemma obj_assign_proto: "obj_assign ''__proto__'' v m = m"
  by (simp add: obj_assign_def)

lemma distinct_obj_assign:
  "distinct (map fst m) \<Longrightarrow> distinct (map fst (obj_assign k v m))"
  by (simp add: obj_assign_def distinct_map_set distinct_obj_insert map_get_None)

lemma obj_assign_keys:
  "k \<noteq> ''__proto__'' \<Longrightarrow> fst ` set (obj_assign k v m) = insert k (fst ` set m)"
  by (simp add: obj_assign_def map_set_keys obj_insert_keys)

subsection \<open>getHealthStatus\<close>

text \<open>
  What \<open>getHealthStatus\<close> does when no check is named \<open>__proto__\<close> and no check
  throws \<open>null\<close> or \<open>undefined\<close>: it returns an object with one property for each
  registered name, holding the reading that the check returned, or the record of the
  \<open>catch\<close> block with the \<open>message\<close> of what the check threw.
\<close>

lemma health_status_from_total:
  assumes "''__proto__'' \<notin> fst ` set hc"
    and "\<And>k c. (k, c) \<in> set hc \<Longrightarrow> \<exists>x. run_check c w = Inr x"
    and "distinct (map fst hc)"
    and "distinct (map fst acc)"
  shows "\<exists>obj. health_status_from acc hc w = Inr obj
           \<and> distinct (map fst obj)
           \<and> fst ` set obj = fst ` set acc \<union> fst ` set hc
           \<and> (\<forall>k. map_get obj k
                  = (case map_get hc k of
                       None \<Rightarrow> map_get acc k
                     | Some c \<Rightarrow> (case run_check c w of Inr x \<Rightarrow> Some x | Inl te \<Rightarrow> None)))"
  using assms
proof (induction hc arbitrary: acc)
  case Nil
  then show ?case by (simp add: map_get_def)
next
  case (Cons entry hc)
  obtain k c where entry: "entry = (k, c)" by (cases entry)
  obtain x where x: "run_check c w = Inr x" using Cons.prems(2) [of k c] entry by auto
  have np: "k \<noteq> ''__proto__''" using Cons.prems(1) entry by auto
  have fresh: "k \<notin> fst ` set hc" using Cons.prems(3) entry by auto
  let ?acc = "obj_assign k x acc"
  have "\<exists>obj. health_status_from ?acc hc w = Inr obj
           \<and> distinct (map fst obj)
           \<and> fst ` set obj = fst ` set ?acc \<union> fst ` set hc
           \<and> (\<forall>k'. map_get obj k'
                  = (case map_get hc k' of
                       None \<Rightarrow> map_get ?acc k'
                     | Some c \<Rightarrow> (case run_check c w of Inr x \<Rightarrow> Some x | Inl te \<Rightarrow> None)))"
  proof (rule Cons.IH)
    show "''__proto__'' \<notin> fst ` set hc" using Cons.prems(1) by auto
    show "\<exists>x. run_check c' w = Inr x" if "(k', c') \<in> set hc" for k' c'
      using Cons.prems(2) [of k' c'] that by simp
    show "distinct (map fst hc)" using Cons.prems(3) by simp
    show "distinct (map fst ?acc)" using Cons.prems(4) by (rule distinct_obj_assign)
  qed
  then obtain obj where obj: "health_status_from ?acc hc w = Inr obj" "distinct (map fst obj)"
    "fst ` set obj = fst ` set ?acc \<union> fst ` set hc"
    "\<And>k'. map_get obj k'
            = (case map_get hc k' of
                 None \<Rightarrow> map_get ?acc k'
               | Some c \<Rightarrow> (case run_check c w of Inr x \<Rightarrow> Some x | Inl te \<Rightarrow> None))"
    by blast
  have none: "map_get hc k = None" using fresh by (simp add: map_get_None)
  have "map_get obj k'
          = (case map_get (entry # hc) k' of
               None \<Rightarrow> map_get acc k'
             | Some c \<Rightarrow> (case run_check c w of Inr x \<Rightarrow> Some x | Inl te \<Rightarrow> None))" for k'
  proof (cases "k' = k")
    case True
    then show ?thesis
      using obj(4) [of k] none x entry np by (simp add: map_get_obj_assign map_get_Cons)
  next
    case False
    then show ?thesis
      using obj(4) [of k'] entry np
      by (simp add: map_get_obj_assign map_get_Cons split: option.splits)
  qed
  moreover have "fst ` set obj = fst ` set acc \<union> fst ` set (entry # hc)"
    using obj(3) entry np by (auto simp: obj_assign_keys)
  ultimately show ?case using obj(1,2) x entry by auto
qed

text \<open>
  Claim C10. The code does not do what the claim says when a check function throws
  \<open>undefined\<close> (or \<open>null\<close>): the \<open>catch\<close> block of \<open>getHealthStatus\<close> reads
  \<open>error.message\<close>, the \<open>TypeError\<close> leaves the method, and no mapping is returned.
  Here the built-in checks are registered with one whose promise is rejected with no
  reason. Nor does a check registered under \<open>__proto__\<close> get an entry.
\<close>

theorem getHealthStatus_rejects:
  "map fst checks_with_rejecting
     = [''server'', ''memory'', ''response_time'', ''error_rate'', ''v8_performance'', ''rejecting'']
   \<and> check rejecting_def world0 = Inl ThrownUndefined
   \<and> getHealthStatus checks_with_rejecting world0 = Inl (cannot_read ''undefined'')
   \<and> map fst checks_with_proto = [''__proto__'']
   \<and> getHealthStatus checks_with_proto world0 = Inr []"
  by (simp add: checks_with_rejecting_def checks_with_proto_def register_check_def
        builtin_checks_eval rejecting_def_def getHealthStatus_def run_check_def error_message_def
        server_def_def memory_def_def response_time_def_def error_rate_def_def
        v8_performance_def_def server_check_def memory_check_def response_time_check_def
        error_rate_check_def v8_performance_check_def obj_assign_def Let_def)

text \<open>
  With a check that throws an \<open>Error\<close>, every registered name has its entry: the
  built-in checks their readings, the check that throws the record of the \<open>catch\<close>
  block.
\<close>

lemma getHealthStatus_with_probe:
  "\<exists>obj. getHealthStatus checks_with_probe world0 = Inr obj
     \<and> map fst obj
         = [''server'', ''memory'', ''response_time'', ''error_rate'', ''v8_performance'', ''probe'']
     \<and> map_get obj ''probe''
         = Some \<lparr>healthy = False, component = None, err = Some (JStr ''probe failed''),
                 timestamp = 1700000000000, details = []\<rparr>"
  by (simp add: checks_with_probe_def register_check_def builtin_checks_eval probe_def_def
        getHealthStatus_def run_check_def error_message_def check_failed_def
        server_def_def memory_def_def response_time_def_def error_rate_def_def
        v8_performance_def_def server_check_def memory_check_def response_time_check_def
        error_rate_check_def v8_performance_check_def obj_assign_def map_get_def
        is_array_index_def is_digit_def Let_def world0_def)

lemma run_check_readable:
  assumes "check c w \<noteq> Inl ThrownNull" and "check c w \<noteq> Inl ThrownUndefined"
  shows "\<exists>x. run_check c w = Inr x"
  using assms
  by (cases "check c w") (auto simp: run_check_def error_message_def split: thrown.splits)

lemma getHealthStatus_entries:
  assumes "distinct (map fst healthChecks)" and "''__proto__'' \<notin> fst ` set healthChecks"
    and "\<And>k c. (k, c) \<in> set healthChecks \<Longrightarrow>
           check c w \<noteq> Inl ThrownNull \<and> check c w \<noteq> Inl ThrownUndefined"
  shows "\<exists>obj. getHealthStatus healthChecks w = Inr obj
           \<and> distinct (map fst obj)
           \<and> fst ` set obj = fst ` set healthChecks
           \<and> (\<forall>k c. (k, c) \<in> set healthChecks \<longrightarrow>
                  map_get obj k
                    = (case check c w of
                         Inr r \<Rightarrow> Some r
                       | Inl e \<Rightarrow> (case e of Thrown m \<Rightarrow> Some (check_failed m w)
                                             | _ \<Rightarrow> None)))"
proof -
  have rd: "\<exists>x. run_check c w = Inr x" if "(k, c) \<in> set healthChecks" for k c
    using assms(3) [OF that] by (intro run_check_readable) simp_all
  have "\<exists>obj. health_status_from [] healthChecks w = Inr obj
           \<and> distinct (map fst obj)
           \<and> fst ` set obj = fst ` set ([] :: health_status) \<union> fst ` set healthChecks
           \<and> (\<forall>k. map_get obj k
                  = (case map_get healthChecks k of
                       None \<Rightarrow> map_get ([] :: health_status) k
                     | Some c \<Rightarrow> (case run_check c w of Inr x \<Rightarrow> Some x | Inl te \<Rightarrow> None)))"
  proof (rule health_status_from_total)
    show "''__proto__'' \<notin> fst ` set healthChecks" by (rule assms(2))
    show "\<exists>x. run_check c w = Inr x" if "(k, c) \<in> set healthChecks" for k c
      using that by (rule rd)
    show "distinct (map fst healthChecks)" by (rule assms(1))
    show "distinct (map fst ([] :: health_status))" by simp
  qed
  then obtain obj where obj: "getHealthStatus healthChecks w = Inr obj" "distinct (map fst obj)"
    "fst ` set obj = fst ` set healthChecks"
    "\<And>k. map_get obj k
            = (case map_get healthChecks k of
                 None \<Rightarrow> map_get ([] :: health_status) k
               | Some c \<Rightarrow> (case run_check c w of Inr x \<Rightarrow> Some x | Inl te \<Rightarrow> None))"
    unfolding getHealthStatus_def by auto
  have "map_get obj k
          = (case check c w of
               Inr r \<Rightarrow> Some r
             | Inl e \<Rightarrow> (case e of Thrown m \<Rightarrow> Some (check_failed m w) | _ \<Rightarrow> None))"
    if kc: "(k, c) \<in> set healthChecks" for k c
  proof -
    have "map_get healthChecks k = Some c"
      using assms(1) kc by (simp add: map_get_def)
    then show ?thesis
      using obj(4) [of k]
      by (simp add: run_check_def error_message_def split: sum.splits thrown.splits)
  qed
  then show ?thesis using obj(1-3) by blast
qed

subsection \<open>getHealingHistory\<close>

lemma history_single_entry:
  assumes "healingAttempts s = [(n, ts)]" and "map_get autoRepairs n = Some r"
  shows "map cooldown_remaining
           (getHealingHistory autoRepairs (s\<lparr>env := (env s)\<lparr>now := t\<rparr>\<rparr>))
         = [max 0 (ts + cooldown r - t)]"
  using assms by (simp add: getHealingHistory_def history_of_def Let_def)

lemma single_split:
  assumes "xs @ (if b then [n] else []) @ ys = [n]" and "n \<notin> set xs" and "n \<notin> set ys"
  shows "xs = [] \<and> b \<and> ys = []"
  using assms by (cases xs; cases ys; cases b) auto

text \<open>
  A pass from an empty \<open>healingAttempts\<close> whose trace grows by the one name \<open>n\<close>, the
  action of \<open>n\<close> completing, leaves exactly the timestamp of \<open>n\<close>.
\<close>

lemma one_invocation:
  assumes regs: "distinct (map fst autoRepairs)" "autoRepairs = before @ (n, r) # rest"
    and empty: "healingAttempts s0 = []"
    and one: "invoked (snd (triggerHealing autoRepairs hs s0)) = invoked s0 @ [n]"
    and ok: "repair r (logw LInfo (''Triggering repair: '' @ rname r) []
                        (env (snd (triggerHealing before hs s0)))) = (Inr res, w1)"
  shows "healingAttempts (snd (triggerHealing autoRepairs hs s0)) = [(n, now w1)]"
proof -
  have nb: "n \<notin> fst ` set before" and nr: "n \<notin> fst ` set rest"
    using regs by auto
  obtain ob a where bf: "triggerHealing before hs s0 = (ob, a)"
    by (cases "triggerHealing before hs s0")
  have sa: "snd (triggerHealing before hs s0) = a" using bf by simp
  obtain xs where xs: "invoked a = invoked s0 @ xs" "set xs \<subseteq> fst ` set before"
    "xs = [] \<longrightarrow> healingAttempts a = healingAttempts s0"
    using triggerHealing_trace [of before hs s0] unfolding sa by blast
  have nxs: "n \<notin> set xs" using xs(2) nb by auto
  obtain o1 a1 where h1: "heal_one hs (n, r) a = (o1, a1)"
    by (cases "heal_one hs (n, r) a")
  have sa1: "snd (heal_one hs (n, r) a) = a1" using h1 by simp
  obtain b where b: "invoked a1 = invoked a @ (if b then [n] else [])"
    "b \<longrightarrow> trigger r hs = Inr True
          \<and> \<not> in_cooldown (map_get (healingAttempts a) n) (now (env a)) (cooldown r)"
    using heal_one_trace [of hs n r a] unfolding sa1 by blast
  obtain ys where ys: "invoked (snd (triggerHealing rest hs a1)) = invoked a1 @ ys"
    "set ys \<subseteq> fst ` set rest"
    "ys = [] \<longrightarrow> healingAttempts (snd (triggerHealing rest hs a1)) = healingAttempts a1"
    using triggerHealing_trace [of rest hs a1] by blast
  have nys: "n \<notin> set ys" using ys(2) nr by auto
  have reached: "ob = None"
  proof (cases ob)
    case None
    then show ?thesis .
  next
    case (Some e)
    then have "snd (triggerHealing autoRepairs hs s0) = a"
      by (simp add: regs(2) triggerHealing_append bf)
    then have "xs = [n]" using one xs(1) by simp
    then show ?thesis using nxs by simp
  qed
  have full: "snd (triggerHealing autoRepairs hs s0)
                = (case o1 of Some e \<Rightarrow> a1 | None \<Rightarrow> snd (triggerHealing rest hs a1))"
    using bf reached h1 by (simp add: regs(2) triggerHealing_append split: option.splits)
  let ?ys = "case o1 of Some e \<Rightarrow> [] | None \<Rightarrow> ys"
  have "invoked (snd (triggerHealing autoRepairs hs s0))
          = invoked s0 @ xs @ (if b then [n] else []) @ ?ys"
    unfolding full using xs(1) b(1) ys(1) by (cases o1) simp_all
  then have eq: "xs @ (if b then [n] else []) @ ?ys = [n]" using one by simp
  have "n \<notin> set ?ys" using nys by (cases o1) simp_all
  from single_split [OF eq nxs this] have x0: "xs = []" and bt: b and y0: "?ys = []"
    by simp_all
  have a0: "healingAttempts a = []" using xs(3) x0 empty by simp
  have tr: "trigger r hs = Inr True"
    and fr: "\<not> in_cooldown (map_get (healingAttempts a) n) (now (env a)) (cooldown r)"
    using b(2) bt by simp_all
  have ok': "repair r (logw LInfo (''Triggering repair: '' @ rname r) [] (env a))
               = (Inr res, w1)"
    using ok sa by simp
  have step: "heal_one hs (n, r) a =
                (None,
                 a\<lparr>invoked := invoked a @ [n],
                   healingAttempts := map_set n (now w1) (healingAttempts a),
                   env := logw LInfo (''Repair completed: '' @ rname r) [(''result'', res)] w1\<rparr>)"
    using tr fr ok' by (rule heal_one_completes)
  have o1: "o1 = None" and a1: "healingAttempts a1 = [(n, now w1)]"
    using step h1 a0 by auto
  have "ys = []" using y0 o1 by simp
  then have "healingAttempts (snd (triggerHealing rest hs a1)) = healingAttempts a1"
    using ys(3) by simp
  then show ?thesis unfolding full using o1 a1 by simp
qed

lemma map_get_registry:
  assumes "distinct (map fst autoRepairs)" and "autoRepairs = before @ (n, r) # rest"
  shows "map_get autoRepairs n = Some r"
proof -
  have "n \<notin> fst ` set before" using assms by auto
  then have "map_of (before @ (n, r) # rest) n = Some r"
    by (induction before) auto
  then show ?thesis by (simp add: map_get_def assms(2))
qed

text \<open>
  Claim C9, as the code has it. Let a pass of \<open>triggerHealing\<close>, on a registry with
  unique names and from a monitor on which no repair has run, invoke exactly one
  repair \<open>n\<close>; let the cooldown of \<open>n\<close> be positive and let its action complete
  without throwing. Then \<open>healingAttempts\<close> holds the timestamp of \<open>n\<close> and nothing
  else, and at every clock reading \<open>getHealingHistory\<close> returns a list of one entry
  whose \<open>cooldown_remaining\<close>, as a function \<open>c\<close> of the clock reading, is positive
  at the timestamp (and as long as the cooldown has not elapsed), does not increase with
  time, is never below 0, and is 0 once the cooldown has elapsed since the timestamp.
\<close>

theorem healing_history_cooldown_remaining:
  assumes regs: "distinct (map fst autoRepairs)" "autoRepairs = before @ (n, r) # rest"
    and cd: "0 < cooldown r"
    and empty: "healingAttempts s0 = []"
    and s: "s = snd (triggerHealing autoRepairs healthStatus s0)"
    and one: "invoked s = invoked s0 @ [n]"
    and ok: "repair r (logw LInfo (''Triggering repair: '' @ rname r) []
                        (env (snd (triggerHealing before healthStatus s0)))) = (Inr res, w1)"
  shows "\<exists>c. healingAttempts s = [(n, now w1)]
            \<and> (\<forall>t. map cooldown_remaining
                    (getHealingHistory autoRepairs (s\<lparr>env := (env s)\<lparr>now := t\<rparr>\<rparr>)) = [c t])
            \<and> 0 < c (now w1)
            \<and> (\<forall>t. t < now w1 + cooldown r \<longrightarrow> 0 < c t)
            \<and> (\<forall>t t'. t \<le> t' \<longrightarrow> c t' \<le> c t)
            \<and> (\<forall>t. 0 \<le> c t)
            \<and> (\<forall>t. now w1 + cooldown r \<le> t \<longrightarrow> c t = 0)"
proof -
  have ha: "healingAttempts s = [(n, now w1)]"
    unfolding s using regs empty one [unfolded s] ok by (rule one_invocation)
  note r = map_get_registry [OF regs]
  let ?c = "\<lambda>t. max 0 (now w1 + cooldown r - t)"
  have "\<forall>t. map cooldown_remaining
               (getHealingHistory autoRepairs (s\<lparr>env := (env s)\<lparr>now := t\<rparr>\<rparr>)) = [?c t]"
    using history_single_entry [OF ha r] by simp
  moreover have "0 < ?c (now w1)" using cd by simp
  moreover have "\<forall>t. t < now w1 + cooldown r \<longrightarrow> 0 < ?c t" by simp
  moreover have "\<forall>t t'. t \<le> t' \<longrightarrow> ?c t' \<le> ?c t" by auto
  moreover have "\<forall>t. 0 \<le> ?c t" by simp
  moreover have "\<forall>t. now w1 + cooldown r \<le> t \<longrightarrow> ?c t = 0" by simp
  ultimately show ?thesis using ha by (intro exI [of _ ?c]) simp
qed

text \<open>
  The first pass of the sample run on the built-in registry, in which
  \<open>memory_cleanup\<close> and no other repair runs: one entry, 300000 at the timestamp,
  1000 less one second later, 0 from 300000 later on.
\<close>

theorem healing_history_cooldown_remaining_witness:
  "distinct (map fst builtin_repairs)
   \<and> 0 < cooldown memory_cleanup_def
   \<and> healingAttempts (constructor world0) = []
   \<and> invoked pass1 = invoked (constructor world0) @ [''memory_cleanup'']
   \<and> map cooldown_remaining (getHealingHistory builtin_repairs pass1) = [300000]
   \<and> map cooldown_remaining (getHealingHistory builtin_repairs (at_time 1700000001000 pass1))
       = [299000]
   \<and> map cooldown_remaining (getHealingHistory builtin_repairs (at_time 1700000300000 pass1))
       = [0]
   \<and> (\<exists>c. healingAttempts pass1 = [(''memory_cleanup'', 1700000000000)]
           \<and> (\<forall>t. map cooldown_remaining
                   (getHealingHistory builtin_repairs (pass1\<lparr>env := (env pass1)\<lparr>now := t\<rparr>\<rparr>))
                 = [c t])
           \<and> 0 < c 1700000000000
           \<and> (\<forall>t. t < 1700000000000 + cooldown memory_cleanup_def \<longrightarrow> 0 < c t)
           \<and> (\<forall>t t'. t \<le> t' \<longrightarrow> c t' \<le> c t)
           \<and> (\<forall>t. 0 \<le> c t)
           \<and> (\<forall>t. 1700000000000 + cooldown memory_cleanup_def \<le> t \<longrightarrow> c t = 0))"
proof -
  let ?rest = "[(''response_optimization'', response_optimization_def),
                (''error_mitigation'', error_mitigation_def),
                (''stability_check'', stability_check_def builtin_checks)]"
  let ?w = "logw LInfo (''Triggering repair: '' @ rname memory_cleanup_def) []
              (env (snd (triggerHealing [] memory_unhealthy (constructor world0))))"
  let ?w1 = "snd (memory_cleanup_repair ?w)"
  let ?res = "JObj [(''success'', JBool True), (''action'', JStr ''memory_cleanup'')]"
  have regs1: "distinct (map fst builtin_repairs)"
    by (simp add: builtin_repairs_def setupAutoRepairs_empty)
  have regs2: "builtin_repairs = [] @ (''memory_cleanup'', memory_cleanup_def) # ?rest"
    by (simp add: builtin_repairs_def setupAutoRepairs_empty)
  have cd: "0 < cooldown memory_cleanup_def"
    by (simp add: memory_cleanup_def_def)
  have h1: "healingAttempts (constructor world0) = []"
    by (simp add: constructor_def)
  have h2: "pass1 = snd (triggerHealing builtin_repairs memory_unhealthy (constructor world0))"
    by (simp add: pass1_def)
  have h3: "invoked pass1 = invoked (constructor world0) @ [''memory_cleanup'']"
    using pass1_eval by (simp add: constructor_def)
  have ok: "repair memory_cleanup_def ?w = (Inr ?res, ?w1)"
    by (simp add: memory_cleanup_def_def memory_cleanup_repair_def Let_def)
  have w1: "now ?w1 = 1700000000000"
    by (simp add: memory_cleanup_clock logw_def constructor_def world0_def)
  have r: "map_get builtin_repairs ''memory_cleanup'' = Some memory_cleanup_def"
    by (simp add: builtin_repairs_def setupAutoRepairs_empty map_get_def)
  have e1: "map cooldown_remaining (getHealingHistory builtin_repairs pass1) = [300000]"
    using pass1_eval r
    by (simp add: getHealingHistory_def history_of_def Let_def memory_cleanup_def_def)
  have e2: "map cooldown_remaining
              (getHealingHistory builtin_repairs (at_time 1700000001000 pass1)) = [299000]"
    using pass1_eval r
    by (simp add: getHealingHistory_def history_of_def Let_def memory_cleanup_def_def at_time_def)
  have e3: "map cooldown_remaining
              (getHealingHistory builtin_repairs (at_time 1700000300000 pass1)) = [0]"
    using pass1_eval r
    by (simp add: getHealingHistory_def history_of_def Let_def memory_cleanup_def_def at_time_def)
  from healing_history_cooldown_remaining [OF regs1 regs2 cd h1 h2 h3 ok]
  have "\<exists>c. healingAttempts pass1 = [(''memory_cleanup'', 1700000000000)]
           \<and> (\<forall>t. map cooldown_remaining
                   (getHealingHistory builtin_repairs (pass1\<lparr>env := (env pass1)\<lparr>now := t\<rparr>\<rparr>))
                 = [c t])
           \<and> 0 < c 1700000000000
           \<and> (\<forall>t. t < 1700000000000 + cooldown memory_cleanup_def \<longrightarrow> 0 < c t)
           \<and> (\<forall>t t'. t \<le> t' \<longrightarrow> c t' \<le> c t)
           \<and> (\<forall>t. 0 \<le> c t)
           \<and> (\<forall>t. 1700000000000 + cooldown memory_cleanup_def \<le> t \<longrightarrow> c t = 0)"
    unfolding w1 .
  with regs1 cd h1 h3 e1 e2 e3 show ?thesis by blast
qed

text \<open>
  Claim C9 as the spec states it fails, in two ways. A pass that invokes the one repair
  \<open>failing\<close>, whose action throws, leaves no timestamp, and the history is empty. A
  pass that invokes the one repair \<open>instant\<close>, whose cooldown is 0, leaves a history
  of one entry whose \<open>cooldown_remaining\<close> is 0 at once.
\<close>

theorem healing_history_counterexample:
  "healingAttempts (constructor world0) = []
   \<and> invoked (snd (triggerHealing only_failing memory_unhealthy (constructor world0)))
       = [''failing'']
   \<and> getHealingHistory only_failing
        (snd (triggerHealing only_failing memory_unhealthy (constructor world0))) = []
   \<and> invoked (snd (triggerHealing only_instant memory_unhealthy (constructor world0)))
       = [''instant'']
   \<and> map cooldown_remaining
        (getHealingHistory only_instant
           (snd (triggerHealing only_instant memory_unhealthy (constructor world0)))) = [0]"
  by (simp add: sample_defs getHealingHistory_def history_of_def)

subsection \<open>The error mitigation repair\<close>

lemma count_endpoint_distinct:
  "distinct (map fst obj) \<Longrightarrow> distinct (map fst (count_endpoint obj k))"
  by (simp add: count_endpoint_def Let_def distinct_obj_assign)

lemma tally_distinct: "distinct (map fst (foldl count_endpoint [] ks))"
  by (induction ks rule: rev_induct) (simp_all add: count_endpoint_distinct)

lemma inherited_proto: "inherited ''__proto__'' \<noteq> None"
  by (simp add: inherited_def)

text \<open>A request path begins with \<open>/\<close>; \<open>Object.prototype\<close> has no such name.\<close>

lemma inherited_path: "inherited (CHR ''/'' # p) = None"
  by (simp add: inherited_def object_prototype_functions_def)

text \<open>
  For a key that \<open>Object.prototype\<close> does not have, \<open>errorsByEndpoint\<close> holds the
  number of its occurrences.
\<close>

lemma tally_get:
  assumes "inherited e = None"
  shows "map_get (foldl count_endpoint [] ks) e
           = (if e \<in> set ks then Some (Count (count_list ks e)) else None)"
proof (induction ks rule: rev_induct)
  case Nil
  then show ?case by (simp add: map_get_def)
next
  case (snoc k ks)
  have ne: "e \<noteq> ''__proto__''" using assms inherited_proto by auto
  show ?case
  proof (cases "k = e")
    case True
    then show ?thesis
      using snoc assms ne
      by (simp add: count_endpoint_def Let_def map_get_obj_assign)
  next
    case False
    show ?thesis
    proof (cases "k = ''__proto__''")
      case True
      then show ?thesis
        using snoc False by (simp add: count_endpoint_def Let_def obj_assign_proto)
    next
      case np: False
      then show ?thesis
        using snoc False by (simp add: count_endpoint_def Let_def map_get_obj_assign)
    qed
  qed
qed

lemma tally_mem:
  assumes "inherited e = None"
  shows "(e, c) \<in> set (foldl count_endpoint [] ks)
           \<longleftrightarrow> e \<in> set ks \<and> c = Count (count_list ks e)"
proof -
  have "(e, c) \<in> set (foldl count_endpoint [] ks)
          \<longleftrightarrow> map_of (foldl count_endpoint [] ks) e = Some c"
    using tally_distinct [of ks] by simp
  also have "\<dots> \<longleftrightarrow> map_get (foldl count_endpoint [] ks) e = Some c"
    by (simp add: map_get_def)
  also have "\<dots> \<longleftrightarrow> e \<in> set ks \<and> c = Count (count_list ks e)"
    unfolding tally_get [OF assms] by auto
  finally show ?thesis .
qed

lemma high_error_logs:
  "logs (foldl (\<lambda>w' kv. if at_least_3 (snd kv)
                          then w'\<lparr>logs := logs w' @ [high_error_entry (fst kv) (snd kv)]\<rparr>
                          else w') w1 entries)
     = logs w1 @ map (\<lambda>kv. high_error_entry (fst kv) (snd kv))
                   (filter (\<lambda>kv. at_least_3 (snd kv)) entries)"
  by (induction entries rule: rev_induct) simp_all

lemma high_error_entry_inj:
  "high_error_entry e c = high_error_entry e' c' \<longleftrightarrow> e = e' \<and> c = c'"
  by (cases c; cases c') (auto simp: high_error_entry_def counter_val_def num_def)

lemma high_error_not_warn: "high_error_entry e c \<noteq> Log LWarn m meta"
  by (simp add: high_error_entry_def)

lemma error_mitigation_logs:
  "logs (snd (error_mitigation_repair w))
     = logs w @ Log LWarn ''Analyzing error patterns for mitigation'' []
         # map (\<lambda>kv. high_error_entry (fst kv) (snd kv))
             (filter (\<lambda>kv. at_least_3 (snd kv))
                (foldl count_endpoint []
                   (map endpoint (slice_last 20
                      (filter (\<lambda>m. statusCode m \<ge> 400) (performanceMetrics w))))))"
  by (simp add: error_mitigation_repair_def Let_def high_error_logs logw_def foldl_map)

lemma high_error_emitted:
  "high_error_entry e c \<in> set (drop (length (logs w)) (logs (snd (error_mitigation_repair w))))
   \<longleftrightarrow> (e, c) \<in> set (foldl count_endpoint []
                        (map endpoint (slice_last 20
                           (filter (\<lambda>m. statusCode m \<ge> 400) (performanceMetrics w)))))
       \<and> at_least_3 c"
  (is "?lhs \<longleftrightarrow> (e, c) \<in> set ?obj \<and> at_least_3 c")
proof -
  have new: "set (drop (length (logs w)) (logs (snd (error_mitigation_repair w))))
               = insert (Log LWarn ''Analyzing error patterns for mitigation'' [])
                   ((\<lambda>kv. high_error_entry (fst kv) (snd kv))
                      ` {kv \<in> set ?obj. at_least_3 (snd kv)})"
    by (simp add: error_mitigation_logs)
  show ?thesis
  proof
    assume ?lhs
    then have "high_error_entry e c
                 \<in> (\<lambda>kv. high_error_entry (fst kv) (snd kv))
                       ` {kv \<in> set ?obj. at_least_3 (snd kv)}"
      unfolding new using high_error_not_warn [of e c] by simp
    then obtain kv where kv: "kv \<in> set ?obj" "at_least_3 (snd kv)"
      and eq: "high_error_entry e c = high_error_entry (fst kv) (snd kv)"
      by blast
    from eq have "e = fst kv" "c = snd kv" by (simp_all add: high_error_entry_inj)
    then have "kv = (e, c)" by simp
    with kv show "(e, c) \<in> set ?obj \<and> at_least_3 c" by simp
  next
    assume r: "(e, c) \<in> set ?obj \<and> at_least_3 c"
    then have "(e, c) \<in> {kv \<in> set ?obj. at_least_3 (snd kv)}" by simp
    then have "high_error_entry (fst (e, c)) (snd (e, c))
                 \<in> (\<lambda>kv. high_error_entry (fst kv) (snd kv))
                       ` {kv \<in> set ?obj. at_least_3 (snd kv)}"
      by (rule imageI)
    then show ?lhs unfolding new by simp
  qed
qed

text \<open>
  What the action of \<open>error_mitigation\<close> does for an endpoint \<open>e\<close> that is not the
  name of a property of \<open>Object.prototype\<close>: among the log entries it emits there is
  a high-error entry for \<open>e\<close> if and only if \<open>e\<close> occurs at least 3 times among the
  last 20 error samples (status at least 400), and that entry carries the number of
  occurrences.
\<close>

lemma error_mitigation_high_error:
  assumes "inherited e = None"
  shows "high_error_entry e c
           \<in> set (drop (length (logs w)) (logs (snd (error_mitigation_repair w))))
         \<longleftrightarrow> c = Count (count_list (map endpoint (slice_last 20
                     (filter (\<lambda>m. statusCode m \<ge> 400) (performanceMetrics w)))) e)
             \<and> 3 \<le> count_list (map endpoint (slice_last 20
                     (filter (\<lambda>m. statusCode m \<ge> 400) (performanceMetrics w)))) e"
proof -
  let ?ks = "map endpoint (slice_last 20
               (filter (\<lambda>m. statusCode m \<ge> 400) (performanceMetrics w)))"
  have "e \<in> set ?ks" if "3 \<le> count_list ?ks e"
    using that count_list_0_iff [of ?ks e] by (cases "e \<in> set ?ks") simp_all
  then show ?thesis
    unfolding high_error_emitted tally_mem [OF assms]
    by (auto simp: at_least_3_def)
qed

text \<open>
  The sequence of the spec's example: among the last 20 error samples \<open>/api/x\<close> occurs
  3 times and \<open>/api/y\<close> twice, and the one high-error entry is that of \<open>/api/x\<close>.
\<close>

lemma world_errors_logs:
  "count_list (map endpoint (slice_last 20
      (filter (\<lambda>m. statusCode m \<ge> 400) (performanceMetrics world_errors)))) ''/api/x'' = 3
   \<and> count_list (map endpoint (slice_last 20
      (filter (\<lambda>m. statusCode m \<ge> 400) (performanceMetrics world_errors)))) ''/api/y'' = 2
   \<and> drop (length (logs world_errors)) (logs (snd (error_mitigation_repair world_errors)))
     = [Log LWarn ''Analyzing error patterns for mitigation'' [],
        high_error_entry ''/api/x'' (Count 3)]"
  by code_simp


end
